theory Spec2Isabelle
  imports Main
begin

section \<open>Python values\<close>

text \<open>
  A Python \<open>str\<close> is modelled as a \<open>string\<close>; a \<open>char\<close> stands for the code
  point of the same number (the code points below 256). The character classes below are
  the ones Python's \<open>str\<close> methods and the \<open>re\<close> module use on that range.
  Every operation of the source that can raise (indexing, dictionary lookup, \<open>pop\<close>,
  \<open>max\<close> of an empty list) returns a sum, \<open>Inl\<close> carrying the exception.
\<close>

datatype error = IndexError | KeyError | ValueError

abbreviation (input) LF :: char where "LF \<equiv> CHR 0x0A"
abbreviation (input) CR :: char where "CR \<equiv> CHR 0x0D"
abbreviation (input) BSL :: char where "BSL \<equiv> CHR 0x5C"
abbreviation (input) BQ :: char where "BQ \<equiv> CHR 0x60"
abbreviation (input) SQ :: char where "SQ \<equiv> CHR 0x27"
abbreviation (input) TAB :: char where "TAB \<equiv> CHR 0x09"

definition ebind :: "error + 'a \<Rightarrow> ('a \<Rightarrow> error + 'b) \<Rightarrow> error + 'b" where
  "ebind x f = (case x of Inl e \<Rightarrow> Inl e | Inr v \<Rightarrow> f v)"

lemma ebind_cong [fundef_cong]:
  "x = y \<Longrightarrow> (\<And>v. y = Inr v \<Longrightarrow> f v = g v) \<Longrightarrow> ebind x f = ebind y g"
  by (cases y) (simp_all add: ebind_def)

lemma ebind_InrE:
  assumes "ebind x f = Inr r"
  obtains v where "x = Inr v" and "f v = Inr r"
  using assms by (cases x) (simp_all add: ebind_def)

lemma ebind_Inr [simp]: "ebind (Inr v) f = f v"
  by (simp add: ebind_def)

lemma ebind_Inl [simp]: "ebind (Inl e) f = Inl e"
  by (simp add: ebind_def)

definition returns :: "error + 'a \<Rightarrow> bool" where
  \<comment> \<open>the call returns normally, raising nothing\<close>
  "returns x = (case x of Inl e \<Rightarrow> False | Inr v \<Rightarrow> True)"

lemma returns_Inr [simp]: "returns (Inr v)"
  by (simp add: returns_def)

lemma returns_Inl [simp]: "\<not> returns (Inl e)"
  by (simp add: returns_def)

lemma returnsE:
  assumes "returns x"
  obtains v where "x = Inr v"
  using assms by (cases x) simp_all

lemma returns_ebind:
  assumes "returns x" and "\<And>v. x = Inr v \<Longrightarrow> returns (f v)"
  shows "returns (ebind x f)"
  using assms by (cases x) simp_all

definition truthy :: "string option \<Rightarrow> bool" where
  \<comment> \<open>the truth value of an \<open>Optional[str]\<close>\<close>
  "truthy x = (case x of None \<Rightarrow> False | Some s \<Rightarrow> s \<noteq> [])"

definition getitem :: "'a list \<Rightarrow> nat \<Rightarrow> error + 'a" where
  \<comment> \<open>\<open>xs[i]\<close> for a non-negative index\<close>
  "getitem xs i = (if i < length xs then Inr (xs ! i) else Inl IndexError)"

lemma getitem_Inr [simp]: "i < length xs \<Longrightarrow> getitem xs i = Inr (xs ! i)"
  by (simp add: getitem_def)

definition py_max :: "nat list \<Rightarrow> error + nat" where
  \<comment> \<open>\<open>max(xs)\<close>: ValueError on the empty list\<close>
  "py_max xs = (case xs of [] \<Rightarrow> Inl ValueError | y # ys \<Rightarrow> Inr (fold max ys y))"

definition is_space :: "char \<Rightarrow> bool" where
  \<comment> \<open>\<open>str.isspace\<close> and the regex class \<open>\s\<close>\<close>
  "is_space c \<longleftrightarrow> c \<in> set [CHR 0x09, CHR 0x0A, CHR 0x0B, CHR 0x0C, CHR 0x0D, CHR 0x1C,
      CHR 0x1D, CHR 0x1E, CHR 0x1F, CHR 0x20, CHR 0x85, CHR 0xA0]"

definition is_linebreak :: "char \<Rightarrow> bool" where
  \<comment> \<open>the line boundaries of \<open>str.splitlines\<close>, besides the pair CR LF\<close>
  "is_linebreak c \<longleftrightarrow> c \<in> set [CHR 0x0A, CHR 0x0B, CHR 0x0C, CHR 0x0D, CHR 0x1C,
      CHR 0x1D, CHR 0x1E, CHR 0x85]"

definition in_range :: "char \<Rightarrow> nat \<Rightarrow> nat \<Rightarrow> bool" where
  "in_range c lo hi \<longleftrightarrow> lo \<le> (of_char c :: nat) \<and> (of_char c :: nat) \<le> hi"

definition is_digit :: "char \<Rightarrow> bool" where
  \<comment> \<open>the regex class \<open>\d\<close>: the decimal digits\<close>
  "is_digit c \<longleftrightarrow> in_range c 0x30 0x39"

definition is_ascii_alnum :: "char \<Rightarrow> bool" where
  \<comment> \<open>the regex class \<open>[A-Za-z0-9]\<close>\<close>
  "is_ascii_alnum c \<longleftrightarrow> in_range c 0x41 0x5A \<or> in_range c 0x61 0x7A \<or> in_range c 0x30 0x39"

definition is_word :: "char \<Rightarrow> bool" where
  \<comment> \<open>the regex class \<open>\w\<close>: alphanumeric code points and the underscore\<close>
  "is_word c \<longleftrightarrow> is_ascii_alnum c \<or> c = CHR ''_''
     \<or> c \<in> set [CHR 0xAA, CHR 0xB2, CHR 0xB3, CHR 0xB5, CHR 0xB9, CHR 0xBA, CHR 0xBC, CHR 0xBD, CHR 0xBE]
     \<or> in_range c 0xC0 0xD6 \<or> in_range c 0xD8 0xF6 \<or> in_range c 0xF8 0xFF"

definition to_lower :: "char \<Rightarrow> char" where
  "to_lower c = (if in_range c 0x41 0x5A \<or> in_range c 0xC0 0xD6 \<or> in_range c 0xD8 0xDE
                 then char_of ((of_char c :: nat) + 32) else c)"

definition lower :: "string \<Rightarrow> string" where
  "lower s = map to_lower s"

definition lstrip :: "string \<Rightarrow> string" where
  "lstrip s = dropWhile is_space s"

definition strip :: "string \<Rightarrow> string" where
  "strip s = rev (dropWhile is_space (rev (dropWhile is_space s)))"

definition startswith :: "string \<Rightarrow> string \<Rightarrow> bool" where
  "startswith s p \<longleftrightarrow> take (length p) s = p"

definition startswith_at :: "string \<Rightarrow> string \<Rightarrow> nat \<Rightarrow> bool" where
  \<comment> \<open>\<open>s.startswith(p, i)\<close>\<close>
  "startswith_at s p i \<longleftrightarrow> i \<le> length s \<and> take (length p) (drop i s) = p"

fun contains :: "string \<Rightarrow> string \<Rightarrow> bool" where
  \<comment> \<open>\<open>p in s\<close>\<close>
  "contains [] p = (p = [])"
| "contains (c # cs) p = (startswith (c # cs) p \<or> contains cs p)"

fun join :: "string \<Rightarrow> string list \<Rightarrow> string" where
  \<comment> \<open>\<open>sep.join(xs)\<close>\<close>
  "join sep [] = []"
| "join sep [x] = x"
| "join sep (x # y # ys) = x @ sep @ join sep (y # ys)"

fun splitlines_from :: "string \<Rightarrow> string \<Rightarrow> string list" where
  \<comment> \<open>\<open>str.splitlines()\<close>, the first argument being the line read so far\<close>
  "splitlines_from acc [] = (if acc = [] then [] else [acc])"
| "splitlines_from acc [c] = (if is_linebreak c then [acc] else [acc @ [c]])"
| "splitlines_from acc (c # d # cs) =
     (if c = CR \<and> d = LF then acc # splitlines_from [] cs
      else if is_linebreak c then acc # splitlines_from [] (d # cs)
      else splitlines_from (acc @ [c]) (d # cs))"

definition splitlines :: "string \<Rightarrow> string list" where
  "splitlines s = splitlines_from [] s"

definition digit_char :: "nat \<Rightarrow> char" where
  "digit_char d = ''0123456789'' ! d"

function str_nat :: "nat \<Rightarrow> string" where
  \<comment> \<open>the decimal form an f-string gives a non-negative integer\<close>
  "str_nat n = (if n < 10 then [digit_char n] else str_nat (n div 10) @ [digit_char (n mod 10)])"
  by pat_completeness auto
termination
  by (relation "measure id") auto

section \<open>Regular expressions of \<open>guess_lang\<close>\<close>

text \<open>
  \<open>guess_lang\<close> only asks whether a pattern matches somewhere, so its patterns are
  kept as syntax trees; \<open>ends r s i\<close> lists the positions where a match of \<open>r\<close> that
  starts at position \<open>i\<close> of \<open>s\<close> can end. \<open>Bol\<close> is \<open>^\<close> under \<open>re.M\<close> and
  \<open>Wordb\<close> is \<open>\b\<close>.
\<close>

datatype rx = Sym "char \<Rightarrow> bool" | Cat rx rx | Alt rx rx | Star rx | Empty | Bol | Wordb

fun closure :: "(nat \<Rightarrow> nat list) \<Rightarrow> nat \<Rightarrow> nat list \<Rightarrow> nat list" where
  "closure f 0 acc = acc"
| "closure f (Suc k) acc =
     (let new = filter (\<lambda>j. j \<notin> set acc) (remdups (concat (map f acc)))
      in if new = [] then acc else closure f k (acc @ new))"

definition word_at :: "string \<Rightarrow> nat \<Rightarrow> bool" where
  "word_at s i \<longleftrightarrow> i < length s \<and> is_word (s ! i)"

primrec ends :: "rx \<Rightarrow> string \<Rightarrow> nat \<Rightarrow> nat list" where
  "ends (Sym p) s i = (if i < length s \<and> p (s ! i) then [Suc i] else [])"
| "ends (Cat a b) s i = remdups (concat (map (ends b s) (ends a s i)))"
| "ends (Alt a b) s i = ends a s i @ ends b s i"
| "ends (Star a) s i = closure (ends a s) (Suc (length s)) [i]"
| "ends Empty s i = [i]"
| "ends Bol s i = (if i = 0 \<or> s ! (i - 1) = LF then [i] else [])"
| "ends Wordb s i = (if (0 < i \<and> word_at s (i - 1)) \<noteq> word_at s i then [i] else [])"

definition search :: "rx \<Rightarrow> string \<Rightarrow> bool" where
  \<comment> \<open>\<open>re.search(r, s)\<close> is not None\<close>
  "search r s \<longleftrightarrow> list_ex (\<lambda>i. ends r s i \<noteq> []) [0..<Suc (length s)]"

definition fullmatch :: "rx \<Rightarrow> string \<Rightarrow> bool" where
  "fullmatch r s \<longleftrightarrow> length s \<in> set (ends r s 0)"

definition lit :: "string \<Rightarrow> rx" where
  "lit w = foldr (\<lambda>c r. Cat (Sym (\<lambda>x. x = c)) r) w Empty"

definition seq :: "rx list \<Rightarrow> rx" where
  "seq rs = foldr Cat rs Empty"

definition alts :: "rx list \<Rightarrow> rx" where
  "alts rs = (case rs of [] \<Rightarrow> Empty | r # rs' \<Rightarrow> fold (\<lambda>x acc. Alt acc x) rs' r)"

definition plus :: "rx \<Rightarrow> rx" where
  "plus r = Cat r (Star r)"

definition opt :: "rx \<Rightarrow> rx" where
  "opt r = Alt r Empty"

abbreviation (input) sp :: rx where "sp \<equiv> Sym is_space"
abbreviation (input) wd :: rx where "wd \<equiv> Sym is_word"
abbreviation (input) dot :: rx where "dot \<equiv> Sym (\<lambda>c. c \<noteq> LF)"
abbreviation (input) anychar :: rx where "anychar \<equiv> Sym (\<lambda>c. True)"

definition guess_lang :: "string \<Rightarrow> string option" where
  "guess_lang code =
    (let s = strip code; low = lower s in
     if search (seq [Bol, Star sp, lit ''def'', plus sp, plus wd, Star sp, lit ''(''] ) s
        \<or> contains low ''import '' \<or> contains s ''print(''
     then Some ''python''
     else if contains s ''console.log(''
        \<or> search (seq [lit ''function'', plus sp, plus wd, Star sp, lit ''(''] ) s
        \<or> contains s ''=> ''
        \<or> search (seq [Wordb, lit ''import'', plus sp, Star dot, plus sp, lit ''from'', plus sp]) low
     then Some ''javascript''
     else if search (seq [Bol, Star sp, opt (lit ''$''), Star sp,
          alts (map lit [''cd'', ''ls'', ''echo'', ''export'', ''pip'', ''apt'', ''yum'', ''curl'',
                         ''wget'', ''git'']), Wordb]) low
     then Some ''bash''
     else if search (seq [Wordb, lit ''select'', Wordb, Star dot, Wordb, lit ''from'', Wordb]) low
        \<or> search (seq [Wordb, lit ''create'', plus sp, lit ''table'', Wordb]) low
     then Some ''sql''
     else if startswith low ''<!doctype html''
        \<or> search (seq [Bol, Star sp, lit ''<html'', Wordb]) low
        \<or> startswith low ''<?xml''
     then Some ''html''
     else if fullmatch (seq [Star sp, lit ''{'', Star anychar, lit ''}'', Star sp]) s
        \<and> contains s '':''
     then Some ''json''
     else if search (seq [Bol, Star sp, plus (Sym (\<lambda>c. is_word c \<or> c = CHR ''-'')), Star sp,
          lit '':'', Star sp, plus dot]) s
        \<and> \<not> (contains s '';'' \<or> contains s ''{'')
     then Some ''yaml''
     else if contains s ''#include''
        \<or> search (seq [Wordb, lit ''int'', plus sp, lit ''main'', Star sp, lit ''(''] ) s
     then Some ''c''
     else if search (seq [Wordb, lit ''public'', plus sp, lit ''class'', Wordb]) s
        \<or> search (seq [Wordb, lit ''System.out.println(''] ) s
     then Some ''java''
     else if contains s ''fn main()'' \<or> contains s ''let mut ''
     then Some ''rust''
     else None)"

section \<open>Code fences (\<open>code_fences.py\<close>)\<close>

definition is_fence :: "char \<Rightarrow> bool" where
  \<comment> \<open>the class \<open>[`~]\<close>\<close>
  "is_fence c \<longleftrightarrow> c = BQ \<or> c = CHR ''~''"

definition is_tag :: "char \<Rightarrow> bool" where
  \<comment> \<open>the class \<open>[A-Za-z0-9.+#_\-]\<close>\<close>
  "is_tag c \<longleftrightarrow> is_ascii_alnum c \<or> c \<in> set ''.+#_-''"

text \<open>
  \<open>OPEN_FENCE_RE = ^\s*([`~]{3,})\s*([A-Za-z0-9.+#_\-]*)\s*$\<close>, applied with \<open>match\<close>.
  The three classes are pairwise disjoint, so each greedy repetition takes its maximal run
  and no backtracking changes the outcome; the final \<open>\s*\<close> takes a trailing newline
  too, so \<open>$\<close> is the end of the string. The result holds groups 1 and 2.
\<close>

definition OPEN_FENCE_RE :: "string \<Rightarrow> (string \<times> string) option" where
  "OPEN_FENCE_RE line =
    (let r1 = dropWhile is_space line;
         g1 = takeWhile is_fence r1;
         r2 = dropWhile is_space (dropWhile is_fence r1);
         g2 = takeWhile is_tag r2;
         r3 = dropWhile is_space (dropWhile is_tag r2)
     in if 3 \<le> length g1 \<and> r3 = [] then Some (g1, g2) else None)"

text \<open>\<open>CLOSE_FENCE_RE = ^\s*([`~]{3,})\s*$\<close>; the result holds group 1.\<close>

definition CLOSE_FENCE_RE :: "string \<Rightarrow> string option" where
  "CLOSE_FENCE_RE line =
    (let r1 = dropWhile is_space line;
         g1 = takeWhile is_fence r1;
         r2 = dropWhile is_space (dropWhile is_fence r1)
     in if 3 \<le> length g1 \<and> r2 = [] then Some g1 else None)"

fun run_lengths :: "char \<Rightarrow> nat \<Rightarrow> string \<Rightarrow> nat list" where
  \<comment> \<open>the lengths of the matches of \<open>BACKTICKS_RUN_RE(ch).finditer(code)\<close>, the maximal
      runs of \<open>ch\<close>; the second argument is the length of the run being read\<close>
  "run_lengths ch k [] = (if k = 0 then [] else [k])"
| "run_lengths ch k (c # cs) =
     (if c = ch then run_lengths ch (Suc k) cs
      else (if k = 0 then [] else [k]) @ run_lengths ch 0 cs)"

definition SECTION_MARKERS :: "string list" where
  "SECTION_MARKERS = [''### Improvements'', ''### Revised Answer'', ''### Comments'']"

text \<open>
  \<open>ATX_HEADER_RE = ^[ \t]{0,3}#{3,6}[ \t]+\<close>, applied with \<open>match\<close>: at most three
  leading blanks (a fourth would have to be a \<open>#\<close>), three to six \<open>#\<close> (a seventh would
  have to be a blank), then a blank.
\<close>

definition ATX_HEADER_RE :: "string \<Rightarrow> bool" where
  "ATX_HEADER_RE line =
    (let blank = (\<lambda>c. c = CHR '' '' \<or> c = TAB);
         lead = takeWhile blank line;
         r1 = dropWhile blank line;
         hashes = takeWhile (\<lambda>c. c = CHR ''#'') r1;
         r2 = dropWhile (\<lambda>c. c = CHR ''#'') r1
     in length lead \<le> 3 \<and> 3 \<le> length hashes \<and> length hashes \<le> 6
        \<and> (case r2 of [] \<Rightarrow> False | c # _ \<Rightarrow> blank c))"

definition prev_nonblank_is_blank :: "string list \<Rightarrow> nat \<Rightarrow> error + bool" where
  "prev_nonblank_is_blank lines idx =
    (if idx > 0 then ebind (getitem lines (idx - 1)) (\<lambda>l. Inr (strip l = [])) else Inr False)"

definition looks_like_section_boundary :: "string list \<Rightarrow> nat \<Rightarrow> error + bool" where
  "looks_like_section_boundary lines idx =
    ebind (getitem lines idx) (\<lambda>l.
      let line = lstrip l in
      if list_ex (\<lambda>m. startswith line m) SECTION_MARKERS then Inr True
      else ebind (getitem lines idx) (\<lambda>l2.
        if ATX_HEADER_RE l2
        then ebind (prev_nonblank_is_blank lines idx) (\<lambda>b. Inr b)
        else Inr False))"

subsection \<open>\<open>validate_code_fences\<close>\<close>

text \<open>
  The state of the first sweep is \<open>(in_block, fence_char, fence_len, open_line)\<close>;
  lines are numbered from 1.
\<close>

type_synonym vstate = "bool \<times> char option \<times> nat \<times> nat"

definition validate_step :: "nat \<Rightarrow> string \<Rightarrow> vstate \<Rightarrow> error + vstate" where
  "validate_step i line st =
    (case st of (in_block, fence_char, fence_len, open_line) \<Rightarrow>
      if \<not> in_block then
        (case OPEN_FENCE_RE line of
           None \<Rightarrow> Inr st
         | Some (g1, g2) \<Rightarrow> ebind (getitem g1 0) (\<lambda>c. Inr (True, Some c, length g1, i)))
      else
        (case CLOSE_FENCE_RE line of
           None \<Rightarrow> Inr st
         | Some g1 \<Rightarrow> ebind (getitem g1 0) (\<lambda>c.
             if Some c = fence_char \<and> length g1 \<ge> fence_len
             then Inr (False, None, 0, open_line) else Inr st)))"

fun unclosed_sweep :: "nat \<Rightarrow> string list \<Rightarrow> vstate \<Rightarrow> error + vstate" where
  "unclosed_sweep i [] st = Inr st"
| "unclosed_sweep i (line # rest) st =
     ebind (validate_step i line st) (\<lambda>st'. unclosed_sweep (i + 1) rest st')"

fun stray_sweep :: "nat \<Rightarrow> string list \<Rightarrow> nat \<Rightarrow> string list \<Rightarrow> string list" where
  "stray_sweep i [] depth issues = issues"
| "stray_sweep i (line # rest) depth issues =
     (if OPEN_FENCE_RE line \<noteq> None then stray_sweep (i + 1) rest (depth + 1) issues
      else if CLOSE_FENCE_RE line \<noteq> None then
        (if depth = 0
         then stray_sweep (i + 1) rest depth
                (issues @ [''Closing fence without opening on line '' @ str_nat i])
         else stray_sweep (i + 1) rest (depth - 1) issues)
      else stray_sweep (i + 1) rest depth issues)"

definition validate_code_fences :: "string \<Rightarrow> error + (bool \<times> string list)" where
  "validate_code_fences text =
    (let lines = splitlines text in
     ebind (unclosed_sweep 1 lines (False, None, 0, 0)) (\<lambda>(in_block, fence_char, fence_len, open_line).
       let issues = (if in_block then [''Unclosed code fence started on line '' @ str_nat open_line]
                     else []);
           issues = stray_sweep 1 lines 0 issues
       in Inr (length issues = 0, issues)))"

subsection \<open>\<open>fix_code_fences\<close>\<close>

definition close_matches :: "string \<Rightarrow> string \<Rightarrow> nat \<Rightarrow> error + bool" where
  \<comment> \<open>the test \<open>m2 and m2.group(1)[0] == orig_series[0] and len(m2.group(1)) >= fence_len\<close>\<close>
  "close_matches line orig_series fence_len =
    (case CLOSE_FENCE_RE line of
       None \<Rightarrow> Inr False
     | Some g \<Rightarrow> ebind (getitem g 0) (\<lambda>a. ebind (getitem orig_series 0) (\<lambda>b.
         Inr (a = b \<and> length g \<ge> fence_len))))"

text \<open>
  The inner loop, "collect until matching close": it returns the index reached, \<open>closed\<close>,
  \<open>code_buf\<close> and \<open>changes\<close>.
\<close>

function collect ::
  "string list \<Rightarrow> string \<Rightarrow> nat \<Rightarrow> nat \<Rightarrow> string list \<Rightarrow> string list
     \<Rightarrow> error + (nat \<times> bool \<times> string list \<times> string list)" where
  "collect lines orig_series fence_len i code_buf changes =
    (if i < length lines then
       ebind (getitem lines i) (\<lambda>line.
         ebind (close_matches line orig_series fence_len) (\<lambda>hit.
           if hit then Inr (i + 1, True, code_buf, changes)
           else ebind (looks_like_section_boundary lines i) (\<lambda>b.
             if b then Inr (i, True, code_buf,
                 changes @ [''Inserted missing closing fence before heading at line ''
                            @ str_nat (i + 1)])
             else collect lines orig_series fence_len (i + 1) (code_buf @ [line]) changes)))
     else Inr (i, False, code_buf, changes))"
  by pat_completeness auto
termination
  by (relation "measure (\<lambda>(lines, orig_series, fence_len, i, code_buf, changes). length lines - i)")
     auto

text \<open>
  The second half of the outer loop's body, from \<open>code = "\n".join(code_buf)\<close> to
  \<open>out.append(closer)\<close>: it returns \<open>out\<close> and \<open>changes\<close>.
\<close>

definition rebuild_block ::
  "string option \<Rightarrow> char \<Rightarrow> nat \<Rightarrow> string \<Rightarrow> bool \<Rightarrow> string list \<Rightarrow> string list \<Rightarrow> string list
     \<Rightarrow> error + (string list \<times> string list)" where
  "rebuild_block default_lang fence_char fence_len lang closed code_buf out changes =
    (let code = join [LF] code_buf;
         runs = run_lengths fence_char 0 code
     in
     ebind (if runs \<noteq> [] then ebind (py_max runs) (\<lambda>m. Inr (max 3 (m + 1))) else Inr (max 3 3))
       (\<lambda>safe_len.
     let norm_lang = lower lang;
         g = (if norm_lang = [] then guess_lang code else None);
         (norm_lang, changes) =
           (if norm_lang = [] then
              (if truthy g then (the g, changes @ [''Added guessed language tag: '' @ the g])
               else if truthy default_lang
               then (lower (the default_lang),
                     changes @ [''Added default language tag: '' @ lower (the default_lang)])
               else (norm_lang, changes))
            else (norm_lang, changes));
         opener = replicate safe_len fence_char @ (if norm_lang \<noteq> [] then '' '' @ norm_lang else []);
         closer = replicate safe_len fence_char;
         changes = (if fence_len \<noteq> safe_len
                    then changes @ [''Adjusted fence length from '' @ str_nat fence_len @ '' to ''
                                    @ str_nat safe_len]
                    else changes);
         changes = (if \<not> closed then changes @ [''Inserted missing closing fence at end of block'']
                    else changes);
         changes = (if lang \<noteq> norm_lang \<and> (lang \<noteq> [] \<or> norm_lang \<noteq> [])
                    then changes @ [''Normalized language tag from '' @ [SQ] @ lang @ [SQ] @ '' to ''
                                    @ [SQ] @ norm_lang @ [SQ]]
                    else changes);
         out = out @ [opener];
         out = (if code_buf \<noteq> [] then out @ [code] else out);
         out = out @ [closer]
     in Inr (out, changes)))"

text \<open>
  The body of the outer loop once \<open>OPEN_FENCE_RE\<close> has matched line \<open>i\<close> with groups
  \<open>orig_series\<close> and \<open>g2\<close>: it returns the new \<open>i\<close>, \<open>out\<close> and \<open>changes\<close>.
\<close>

definition fix_block ::
  "string list \<Rightarrow> string option \<Rightarrow> bool \<Rightarrow> nat \<Rightarrow> string \<Rightarrow> string \<Rightarrow> string list \<Rightarrow> string list
     \<Rightarrow> error + (nat \<times> string list \<times> string list)" where
  "fix_block lines default_lang keep_fence_char i orig_series g2 out changes =
    ebind (if keep_fence_char then getitem orig_series 0 else Inr BQ) (\<lambda>fence_char.
    let fence_len = length orig_series;
        lang = strip g2
    in
    ebind (collect lines orig_series fence_len (i + 1) [] changes) (\<lambda>(i, closed, code_buf, changes).
    ebind (rebuild_block default_lang fence_char fence_len lang closed code_buf out changes)
      (\<lambda>(out, changes). Inr (i, out, changes))))"

declare collect.simps [simp del]

lemma collect_index: "collect lines orig_series fence_len i code_buf changes = Inr (j, r) \<Longrightarrow> i \<le> j"
proof (induction lines orig_series fence_len i code_buf changes rule: collect.induct)
  case (1 lines orig_series fence_len i code_buf changes)
  show ?case
  proof (cases "i < length lines")
    case False
    with "1.prems" show ?thesis by (subst (asm) collect.simps) simp
  next
    case True
    from "1.prems" True obtain hit where
      h: "close_matches (lines ! i) orig_series fence_len = Inr hit"
      by (subst (asm) collect.simps) (auto simp: ebind_def getitem_def split: sum.splits)
    show ?thesis
    proof (cases hit)
      case True
      with "1.prems" \<open>i < length lines\<close> h show ?thesis
        by (subst (asm) collect.simps) (auto simp: getitem_def)
    next
      case False
      from "1.prems" \<open>i < length lines\<close> h False obtain b where
        b: "looks_like_section_boundary lines i = Inr b"
        by (subst (asm) collect.simps) (auto simp: ebind_def getitem_def split: sum.splits)
      show ?thesis
      proof (cases b)
        case True
        with "1.prems" \<open>i < length lines\<close> h \<open>\<not> hit\<close> b show ?thesis
          by (subst (asm) collect.simps) (auto simp: getitem_def)
      next
        case False
        have g: "getitem lines i = Inr (lines ! i)"
          using \<open>i < length lines\<close> by (simp add: getitem_def)
        from "1.prems" \<open>i < length lines\<close> h \<open>\<not> hit\<close> b False
        have "collect lines orig_series fence_len (i + 1) (code_buf @ [lines ! i]) changes = Inr (j, r)"
          by (subst (asm) collect.simps) (simp add: getitem_def)
        from "1.IH"[OF \<open>i < length lines\<close> g h \<open>\<not> hit\<close> b False this]
        show ?thesis by simp
      qed
    qed
  qed
qed

lemma fix_block_index:
  "fix_block lines default_lang keep_fence_char i orig_series g2 out changes = Inr (j, r) \<Longrightarrow> i < j"
  unfolding fix_block_def Let_def
  by (elim ebind_InrE) (auto simp: case_prod_beta dest!: collect_index elim!: ebind_InrE)

function fix_loop ::
  "string list \<Rightarrow> string option \<Rightarrow> bool \<Rightarrow> nat \<Rightarrow> string list \<Rightarrow> string list
     \<Rightarrow> error + (string list \<times> string list)" where
  "fix_loop lines default_lang keep_fence_char i out changes =
    (if i < length lines then
       ebind (getitem lines i) (\<lambda>line.
         case OPEN_FENCE_RE line of
           None \<Rightarrow> fix_loop lines default_lang keep_fence_char (i + 1) (out @ [line]) changes
         | Some (orig_series, g2) \<Rightarrow>
             ebind (fix_block lines default_lang keep_fence_char i orig_series g2 out changes)
               (\<lambda>(j, out', changes').
                  fix_loop lines default_lang keep_fence_char j out' changes'))
     else Inr (out, changes))"
  by pat_completeness auto
termination
  by (relation "measure (\<lambda>(lines, default_lang, keep_fence_char, i, out, changes). length lines - i)")
     (auto dest: fix_block_index)

declare fix_loop.simps [simp del]

definition fix_code_fences :: "string \<Rightarrow> string option \<Rightarrow> bool \<Rightarrow> error + (string \<times> string list)" where
  "fix_code_fences text default_lang keep_fence_char =
    (let lines = splitlines text in
     ebind (fix_loop lines default_lang keep_fence_char 0 [] []) (\<lambda>(out, changes).
       let fixed = join [LF] out in Inr (fixed, changes)))"

subsection \<open>\<open>ensure_fenced_code\<close>\<close>

definition ensure_fenced_code :: "string \<Rightarrow> string option \<Rightarrow> bool \<Rightarrow> error + (string \<times> string list)" where
  "ensure_fenced_code text default_lang keep_fence_char =
    ebind (validate_code_fences text) (\<lambda>(ok, issues).
      if \<not> ok then
        ebind (fix_code_fences text default_lang keep_fence_char) (\<lambda>(fixed, changes).
          ebind (validate_code_fences fixed) (\<lambda>(ok2, issues2).
            Inr (fixed, issues @ changes @ (if \<not> ok2 then [''Still invalid after fix''] else []))))
      else
        ebind (fix_code_fences text default_lang keep_fence_char) (\<lambda>(fixed, changes).
          Inr (fixed, changes)))"

section \<open>Math delimiters (\<open>latex.py\<close>)\<close>

datatype edit_kind = Insert | Replace | Delete

record edit =
  kind :: edit_kind
  pos :: nat
  before :: string
  after :: string
  reason :: string

definition Edit :: "edit_kind \<Rightarrow> nat \<Rightarrow> string \<Rightarrow> string \<Rightarrow> string \<Rightarrow> edit" where
  "Edit k p b a r = \<lparr>kind = k, pos = p, before = b, after = a, reason = r\<rparr>"

definition lookup :: "(string \<times> string) list \<Rightarrow> string \<Rightarrow> error + string" where
  \<comment> \<open>\<open>d[k]\<close> on a dict\<close>
  "lookup d k = (case map_of d k of None \<Rightarrow> Inl KeyError | Some v \<Rightarrow> Inr v)"

definition has_key :: "(string \<times> string) list \<Rightarrow> string \<Rightarrow> bool" where
  \<comment> \<open>\<open>k in d\<close> on a dict\<close>
  "has_key d k \<longleftrightarrow> map_of d k \<noteq> None"

definition py_last :: "'a list \<Rightarrow> error + 'a" where
  \<comment> \<open>\<open>xs[-1]\<close>\<close>
  "py_last xs = (if xs = [] then Inl IndexError else Inr (last xs))"

definition py_pop :: "'a list \<Rightarrow> error + ('a \<times> 'a list)" where
  \<comment> \<open>\<open>xs.pop()\<close>: the element removed and the list left\<close>
  "py_pop xs = (if xs = [] then Inl IndexError else Inr (last xs, butlast xs))"

lemma py_pop_length: "py_pop xs = Inr p \<Longrightarrow> length (snd p) < length xs"
  by (cases "xs = []") (auto simp: py_pop_def)

definition slice :: "string \<Rightarrow> nat \<Rightarrow> nat \<Rightarrow> string" where
  \<comment> \<open>\<open>s[i:j]\<close>\<close>
  "slice s i j = take (j - i) (drop i s)"

fun find_in :: "string \<Rightarrow> string \<Rightarrow> nat \<Rightarrow> nat option" where
  "find_in p [] j = (if p = [] then Some j else None)"
| "find_in p (c # cs) j = (if startswith (c # cs) p then Some j else find_in p cs (Suc j))"

definition find_sub :: "string \<Rightarrow> string \<Rightarrow> nat \<Rightarrow> nat option" where
  \<comment> \<open>the start of the first occurrence of \<open>p\<close> in \<open>s\<close> at or after \<open>i\<close>\<close>
  "find_sub p s i = (if i \<le> length s then find_in p (drop i s) i else None)"

subsection \<open>The patterns of \<open>LaTeXFixer\<close>\<close>

text \<open>
  Each pattern is a function from the text and a start position to the end of the match
  that \<open>re\<close> finds there, if any. None of them matches the empty string.
\<close>

definition BEGIN :: string where "BEGIN = BSL # ''begin{''"

text \<open>\<open>_code_fence = ```.*?```\<close> with \<open>re.DOTALL\<close>: the lazy body ends at the first
  later triple backtick.\<close>

definition code_fence :: "string \<Rightarrow> nat \<Rightarrow> nat option" where
  "code_fence s i =
    (if startswith_at s [BQ, BQ, BQ] i
     then (case find_sub [BQ, BQ, BQ] s (i + 3) of None \<Rightarrow> None | Some j \<Rightarrow> Some (j + 3))
     else None)"

text \<open>\<open>_inline_code = `[^`\n]*`\<close>: the greedy body stops at the first backtick or
  newline, which must be a backtick.\<close>

definition inline_code :: "string \<Rightarrow> nat \<Rightarrow> nat option" where
  "inline_code s i =
    (if startswith_at s [BQ] i then
       (let rest = drop (i + 1) s;
            body = takeWhile (\<lambda>c. c \<noteq> BQ \<and> c \<noteq> LF) rest
        in case drop (length body) rest of
             [] \<Rightarrow> None
           | c # cs \<Rightarrow> if c = BQ then Some (i + 1 + length body + 1) else None)
     else None)"

text \<open>\<open>_comment = (?m)%[^\n]*$\<close>: from a percent sign to the end of its line.\<close>

definition comment :: "string \<Rightarrow> nat \<Rightarrow> nat option" where
  "comment s i =
    (if startswith_at s ''%'' i
     then Some (i + 1 + length (takeWhile (\<lambda>c. c \<noteq> LF) (drop (i + 1) s)))
     else None)"

text \<open>
  \<open>_verb_env_open = \\begin\{(verbatim|lstlisting|minted)(?:\*?)\b[^\}]*\}\<close>. After the
  name, \<open>re\<close> first tries the star, which needs a word character behind it for \<open>\b\<close>,
  then no star, which needs a non-word character or the end of the text behind the name;
  either way the match ends after the first closing brace. The result is the end of the
  match and group 1.
\<close>

definition verb_env_tail :: "string \<Rightarrow> nat \<Rightarrow> nat option" where
  \<comment> \<open>\<open>(?:\*?)\b[^\}]*\}\<close> at position \<open>k\<close>, the character before \<open>k\<close> being a word character\<close>
  "verb_env_tail s k =
    (let with_star =
           (if startswith_at s ''*'' k \<and> word_at s (k + 1)
            then (case find_sub ''}'' s (k + 1) of None \<Rightarrow> None | Some j \<Rightarrow> Some (j + 1))
            else None)
     in case with_star of
          Some e \<Rightarrow> Some e
        | None \<Rightarrow>
            if \<not> word_at s k
            then (case find_sub ''}'' s k of None \<Rightarrow> None | Some j \<Rightarrow> Some (j + 1))
            else None)"

fun verb_env_names :: "string \<Rightarrow> nat \<Rightarrow> string list \<Rightarrow> (nat \<times> string) option" where
  "verb_env_names s k [] = None"
| "verb_env_names s k (name # names) =
     (if startswith_at s name k
      then (case verb_env_tail s (k + length name) of
              Some e \<Rightarrow> Some (e, name)
            | None \<Rightarrow> verb_env_names s k names)
      else verb_env_names s k names)"

definition verb_env_open :: "string \<Rightarrow> nat \<Rightarrow> (nat \<times> string) option" where
  "verb_env_open s i =
    (if startswith_at s BEGIN i
     then verb_env_names s (i + length BEGIN) [''verbatim'', ''lstlisting'', ''minted'']
     else None)"

text \<open>\<open>_verb_inline = \\verb(?P<d>[^A-Za-z0-9\s])(?:.*?)(?P=d)\<close>: the lazy body ends at
  the first later copy of the delimiter, with no newline before it.\<close>

definition verb_inline :: "string \<Rightarrow> nat \<Rightarrow> nat option" where
  "verb_inline s i =
    (if startswith_at s (BSL # ''verb'') i then
       (case drop (i + 5) s of
          [] \<Rightarrow> None
        | d # rest \<Rightarrow>
            if is_ascii_alnum d \<or> is_space d then None
            else
              (let body = takeWhile (\<lambda>c. c \<noteq> d \<and> c \<noteq> LF) rest
               in case drop (length body) rest of
                    [] \<Rightarrow> None
                  | c # cs \<Rightarrow> if c = d then Some (i + 6 + length body + 1) else None))
     else None)"

text \<open>
  \<open>pattern.finditer(s)\<close>: the matches from left to right, the search going on at the end
  of each one (one position further after an empty match or none).
\<close>

function finditer :: "(string \<Rightarrow> nat \<Rightarrow> nat option) \<Rightarrow> string \<Rightarrow> nat \<Rightarrow> (nat \<times> nat) list" where
  "finditer m s i =
    (if i < length s then
       (case m s i of
          None \<Rightarrow> finditer m s (Suc i)
        | Some e \<Rightarrow> (i, e) # finditer m s (if i < e then e else Suc i))
     else [])"
  by pat_completeness auto
termination
  by (relation "measure (\<lambda>(m, s, i). length s - i)") auto

declare finditer.simps [simp del]

text \<open>The loop over \<open>_verb_env_open.finditer(s)\<close> with its search for the closing
  \<open>\end{name}\<close>.\<close>

function verb_env_spans :: "string \<Rightarrow> nat \<Rightarrow> (nat \<times> nat) list" where
  "verb_env_spans s i =
    (if i < length s then
       (case verb_env_open s i of
          None \<Rightarrow> verb_env_spans s (Suc i)
        | Some (e, name) \<Rightarrow>
            (let start = i;
                 close = find_sub (BSL # ''end{'' @ name @ ''}'') s e;
                 en = (case close of Some j \<Rightarrow> j + length (BSL # ''end{'' @ name @ ''}'')
                                   | None \<Rightarrow> length s)
             in (start, en) # verb_env_spans s (if i < e then e else Suc i)))
     else [])"
  by pat_completeness auto
termination
  by (relation "measure (\<lambda>(s, i). length s - i)") auto

declare verb_env_spans.simps [simp del]

subsection \<open>\<open>_protected_spans\<close>\<close>

fun insort_span :: "nat \<times> nat \<Rightarrow> (nat \<times> nat) list \<Rightarrow> (nat \<times> nat) list" where
  "insort_span x [] = [x]"
| "insort_span x (y # ys) =
     (if fst x < fst y \<or> (fst x = fst y \<and> snd x \<le> snd y) then x # y # ys
      else y # insort_span x ys)"

definition sort_spans :: "(nat \<times> nat) list \<Rightarrow> (nat \<times> nat) list" where
  \<comment> \<open>\<open>spans.sort()\<close> on a list of pairs\<close>
  "sort_spans xs = foldr insort_span xs []"

fun merge_spans :: "(nat \<times> nat) list \<Rightarrow> (nat \<times> nat) list \<Rightarrow> error + (nat \<times> nat) list" where
  "merge_spans [] merged = Inr merged"
| "merge_spans ((st, en) # spans) merged =
     ebind (if merged = [] then Inr True
            else ebind (py_last merged) (\<lambda>l. Inr (st > snd l))) (\<lambda>fresh.
       if fresh then merge_spans spans (merged @ [(st, en)])
       else ebind (py_last merged) (\<lambda>l. ebind (py_last merged) (\<lambda>l2.
              if merged = [] then Inl IndexError
              else merge_spans spans (butlast merged @ [(fst l, max (snd l2) en)]))))"

definition protected_spans :: "string \<Rightarrow> error + (nat \<times> nat) list" where
  "protected_spans s =
    (let spans = finditer code_fence s 0;
         spans = spans @ finditer inline_code s 0;
         spans = spans @ finditer comment s 0;
         spans = spans @ verb_env_spans s 0;
         spans = spans @ finditer verb_inline s 0;
         spans = sort_spans spans
     in merge_spans spans [])"

definition in_protected :: "nat \<Rightarrow> (nat \<times> nat) list \<Rightarrow> bool" where
  "in_protected i spans \<longleftrightarrow> list_ex (\<lambda>(st, en). st \<le> i \<and> i < en) spans"

subsection \<open>Helpers\<close>

definition count_trailing_backslashes :: "string \<Rightarrow> nat" where
  "count_trailing_backslashes prefix = length (takeWhile (\<lambda>ch. ch = BSL) (rev prefix))"

text \<open>
  The pattern of \<open>_looks_like_currency\<close>,
  \<open>\$(\d{1,3}(?:[.,]\d{3})*|\d+)(?:[.,]\d+)?\<close>, applied with \<open>match\<close>. Once a digit
  follows the dollar sign the first alternative succeeds with every greedy choice, all that
  follows being optional, so the second alternative is never used. The result is the length
  of group 0.
\<close>

fun digit_groups :: "string \<Rightarrow> nat" where
  \<comment> \<open>the length of the match of \<open>(?:[.,]\d{3})*\<close>\<close>
  "digit_groups (p # a # b # c # rest) =
     (if (p = CHR ''.'' \<or> p = CHR '','') \<and> is_digit a \<and> is_digit b \<and> is_digit c
      then 4 + digit_groups rest else 0)"
| "digit_groups t = 0"

definition currency_re :: "string \<Rightarrow> nat option" where
  "currency_re t =
    (case t of
       [] \<Rightarrow> None
     | c # r \<Rightarrow>
         if c \<noteq> CHR ''$'' then None
         else
           (let d1 = take 3 (takeWhile is_digit r) in
            if d1 = [] then None
            else
              (let r1 = drop (length d1) r;
                   k = digit_groups r1;
                   r2 = drop k r1;
                   dec = (case r2 of
                            [] \<Rightarrow> 0
                          | p # q \<Rightarrow>
                              if (p = CHR ''.'' \<or> p = CHR '','') \<and> takeWhile is_digit q \<noteq> []
                              then 1 + length (takeWhile is_digit q) else 0)
               in Some (1 + length d1 + k + dec))))"

definition looks_like_currency :: "string \<Rightarrow> nat \<Rightarrow> error + bool" where
  "looks_like_currency s i =
    (case currency_re (drop i s) of
       None \<Rightarrow> Inr False
     | Some len_m \<Rightarrow>
         (let aft = i + len_m in
          if aft < length s
          then ebind (getitem s aft) (\<lambda>c. if c = CHR ''$'' then Inr False else Inr True)
          else Inr True))"

subsection \<open>\<open>_scan_and_fix\<close>\<close>

definition tokens :: "string list" where
  "tokens = [[BSL, CHR ''[''], [BSL, CHR '']''], [BSL, CHR ''(''], [BSL, CHR '')''], ''$$'', ''$'']"

definition openers :: "(string \<times> string) list" where
  "openers = [([BSL, CHR ''[''], [BSL, CHR ''['']), ([BSL, CHR ''(''], [BSL, CHR ''(''] ),
              (''$$'', ''$$''), (''$'', ''$'')]"

definition closers :: "(string \<times> string) list" where
  "closers = [([BSL, CHR '']''], [BSL, CHR '']'']), ([BSL, CHR '')''], [BSL, CHR '')'']),
              (''$$'', ''$$''), (''$'', ''$'')]"

definition matching :: "(string \<times> string) list" where
  "matching = [([BSL, CHR ''[''], [BSL, CHR '']'']), ([BSL, CHR ''(''], [BSL, CHR '')'']),
               (''$$'', ''$$''), (''$'', ''$'')]"

definition closing_of :: "(string \<times> string) list" where
  "closing_of = [([BSL, CHR '']''], [BSL, CHR ''['']), ([BSL, CHR '')''], [BSL, CHR ''(''] ),
                 (''$$'', ''$$''), (''$'', ''$'')]"

text \<open>
  The state of the scan is \<open>(i, out, edits, stack)\<close>; \<open>out\<close> is the list of pieces
  appended so far and the top of \<open>stack\<close> is its last element. A stack entry is
  \<open>(opener_token, output_index_snapshot, original_index)\<close>.
\<close>

type_synonym stack_entry = "string \<times> nat \<times> nat"
type_synonym scan_state = "nat \<times> string list \<times> edit list \<times> stack_entry list"

definition insert_closer ::
  "nat \<Rightarrow> string \<Rightarrow> string \<Rightarrow> string list \<Rightarrow> edit list \<Rightarrow> error + (string list \<times> edit list)" where
  \<comment> \<open>the local function of \<open>_scan_and_fix\<close>, at cursor \<open>i\<close>\<close>
  "insert_closer i tok_open where_desc out edits =
    ebind (lookup matching tok_open) (\<lambda>closer.
      Inr (out @ [closer],
           edits @ [Edit Insert i [] closer
                      (''Inserted missing closer '' @ closer @ '' for '' @ tok_open @ '' ''
                       @ where_desc)]))"

function close_line ::
  "nat \<Rightarrow> stack_entry list \<Rightarrow> string list \<Rightarrow> edit list
     \<Rightarrow> error + (stack_entry list \<times> string list \<times> edit list)" where
  \<comment> \<open>the loop \<open>while stack\<close> at a newline; \<open>popped\<close> is the entry removed, whose first
      component is \<open>tok_open\<close>, and the stack left\<close>
  "close_line i stack out edits =
    (if stack \<noteq> [] then
       ebind (py_pop stack) (\<lambda>popped.
         ebind (insert_closer i (fst (fst popped)) ''at end of line'' out edits) (\<lambda>r.
           close_line i (snd popped) (fst r) (snd r)))
     else Inr (stack, out, edits))"
  by pat_completeness auto
termination
  by (relation "measure (\<lambda>(i, stack, out, edits). length stack)")
     (auto dest: py_pop_length)

declare close_line.simps [simp del]

function close_document ::
  "nat \<Rightarrow> stack_entry list \<Rightarrow> string list \<Rightarrow> edit list
     \<Rightarrow> error + (stack_entry list \<times> string list \<times> edit list)" where
  \<comment> \<open>the loop \<open>while stack\<close> at the end of the text, \<open>n\<close> being its length\<close>
  "close_document n stack out edits =
    (if stack \<noteq> [] then
       ebind (py_pop stack) (\<lambda>popped.
         ebind (lookup matching (fst (fst popped))) (\<lambda>closer.
           close_document n (snd popped)
             (out @ [closer])
             (edits @ [Edit Insert n [] closer
                         (''Inserted missing closer '' @ closer @ '' at end of document'')])))
     else Inr (stack, out, edits))"
  by pat_completeness auto
termination
  by (relation "measure (\<lambda>(n, stack, out, edits). length stack)")
     (auto dest: py_pop_length)

declare close_document.simps [simp del]

text \<open>
  The part of the loop body after the escape and currency tests, in three pieces: the token
  \<open>tok\<close> at cursor \<open>i\<close> is classified (the result is \<open>(is_opener, is_closer)\<close>), then
  handled as an opener or as a closer.
\<close>

definition classify :: "string \<Rightarrow> stack_entry list \<Rightarrow> error + (bool \<times> bool)" where
  "classify tok stack =
    (if has_key openers tok \<and> \<not> has_key closers tok then Inr (True, False)
     else if has_key closers tok \<and> \<not> has_key openers tok then Inr (False, True)
     else if stack \<noteq> []
     then ebind (py_last stack) (\<lambda>top.
            if fst top = tok then Inr (False, True) else Inr (True, False))
     else Inr (True, False))"

definition handle_opener ::
  "string \<Rightarrow> nat \<Rightarrow> string list \<Rightarrow> edit list \<Rightarrow> stack_entry list \<Rightarrow> error + scan_state" where
  "handle_opener tok i out edits stack =
    ebind (if stack \<noteq> [] then
             ebind (py_pop stack) (\<lambda>popped.
               ebind (insert_closer i (fst (fst popped)) ''before opening a new math block''
                        out edits)
                 (\<lambda>r. Inr (snd popped, fst r, snd r)))
           else Inr (stack, out, edits)) (\<lambda>(stack, out, edits).
      Inr (i + length tok, out @ [tok], edits, stack @ [(tok, length out, i)]))"

definition handle_closer ::
  "string \<Rightarrow> nat \<Rightarrow> string list \<Rightarrow> edit list \<Rightarrow> stack_entry list \<Rightarrow> error + scan_state" where
  "handle_closer tok i out edits stack =
    (if stack = [] then
       Inr (i + length tok, out,
            edits @ [Edit Delete i tok [] (''Stray closer '' @ tok @ '' removed'')], stack)
     else
       ebind (py_last stack) (\<lambda>(open_tok, a, open_at).
         ebind (lookup matching open_tok) (\<lambda>want_closer.
           if tok = want_closer then
             ebind (py_pop stack) (\<lambda>popped.
               Inr (i + length tok, out @ [tok], edits, snd popped))
           else
             ebind (py_pop stack) (\<lambda>popped.
               Inr (i + length tok, out @ [want_closer],
                    edits @ [Edit Replace i tok want_closer
                               (''Mismatched closer: '' @ tok @ '' -> '' @ want_closer
                                @ '' for opener '' @ open_tok)],
                    snd popped)))))"

definition handle_token ::
  "string \<Rightarrow> nat \<Rightarrow> string list \<Rightarrow> edit list \<Rightarrow> stack_entry list \<Rightarrow> error + scan_state" where
  "handle_token tok i out edits stack =
    ebind (classify tok stack) (\<lambda>(is_opener, is_closer).
      if is_opener then handle_opener tok i out edits stack
      else handle_closer tok i out edits stack)"

text \<open>One turn of the loop \<open>while i < n\<close>.\<close>

definition scan_step :: "bool \<Rightarrow> string \<Rightarrow> (nat \<times> nat) list \<Rightarrow> scan_state \<Rightarrow> error + scan_state" where
  "scan_step close_on_newline s protected state =
    (case state of (i, out, edits, stack) \<Rightarrow>
      if in_protected i protected then
        (case find (\<lambda>(st, en). st \<le> i \<and> i < en) protected of
           Some (st, en) \<Rightarrow> Inr (en, out @ [slice s i en], edits, stack)
         | None \<Rightarrow> Inr state)
      else
        ebind (getitem s i) (\<lambda>ch.
          if ch = LF \<and> close_on_newline \<and> stack \<noteq> [] then
            ebind (close_line i stack out edits) (\<lambda>(stack', out', edits').
              Inr (i + 1, out' @ [[ch]], edits', stack'))
          else
            (case find (\<lambda>t. startswith_at s t i) tokens of
               None \<Rightarrow> Inr (i + 1, out @ [[ch]], edits, stack)
             | Some tok \<Rightarrow>
                 (let bs = count_trailing_backslashes (slice s 0 i) in
                  if bs mod 2 = 1 then Inr (i + length tok, out @ [tok], edits, stack)
                  else
                    ebind (if tok = ''$'' \<and> stack = [] then looks_like_currency s i
                           else Inr False) (\<lambda>currency.
                      if currency then Inr (i + 1, out @ [''$''], edits, stack)
                      else handle_token tok i out edits stack)))))"

text \<open>Every turn of the loop moves the cursor forward, so the loop ends.\<close>

lemma find_Some_set: "find P xs = Some x \<Longrightarrow> x \<in> set xs \<and> P x"
  by (induction xs) (auto split: if_splits)

lemma token_length: "find (\<lambda>t. startswith_at s t i) tokens = Some tok \<Longrightarrow> 0 < length tok"
  by (drule find_Some_set) (auto simp: tokens_def)

lemma handle_opener_cursor:
  "handle_opener tok i out edits stack = Inr st' \<Longrightarrow> fst st' = i + length tok"
  unfolding handle_opener_def
  by (auto elim!: ebind_InrE simp: case_prod_beta)

lemma handle_closer_cursor:
  "handle_closer tok i out edits stack = Inr st' \<Longrightarrow> fst st' = i + length tok"
  unfolding handle_closer_def
  by (cases "stack = []") (auto elim!: ebind_InrE simp: case_prod_beta split: if_splits)

lemma handle_token_cursor:
  "handle_token tok i out edits stack = Inr st' \<Longrightarrow> fst st' = i + length tok"
  unfolding handle_token_def
  by (auto elim!: ebind_InrE simp: case_prod_beta handle_opener_cursor handle_closer_cursor
           split: if_splits)

lemma in_protected_find:
  "in_protected i protected \<Longrightarrow> \<exists>st en. find (\<lambda>(st, en). st \<le> i \<and> i < en) protected = Some (st, en) \<and> i < en"
  unfolding in_protected_def
  by (induction protected) (auto split: if_splits)

lemma scan_step_progress:
  assumes "scan_step close_on_newline s protected (i, out, edits, stack) = Inr st'"
  shows "i < fst st'"
proof (cases "in_protected i protected")
  case True
  from in_protected_find[OF True] obtain st en where
    "find (\<lambda>(st, en). st \<le> i \<and> i < en) protected = Some (st, en)" and "i < en" by blast
  with assms True show ?thesis by (auto simp: scan_step_def)
next
  case False
  from assms False obtain ch where ch: "getitem s i = Inr ch" and
    r: "(if ch = LF \<and> close_on_newline \<and> stack \<noteq> [] then
            ebind (close_line i stack out edits) (\<lambda>(stack', out', edits').
              Inr (i + 1, out' @ [[ch]], edits', stack'))
          else
            (case find (\<lambda>t. startswith_at s t i) tokens of
               None \<Rightarrow> Inr (i + 1, out @ [[ch]], edits, stack)
             | Some tok \<Rightarrow>
                 (let bs = count_trailing_backslashes (slice s 0 i) in
                  if bs mod 2 = 1 then Inr (i + length tok, out @ [tok], edits, stack)
                  else
                    ebind (if tok = ''$'' \<and> stack = [] then looks_like_currency s i
                           else Inr False) (\<lambda>currency.
                      if currency then Inr (i + 1, out @ [''$''], edits, stack)
                      else handle_token tok i out edits stack)))) = Inr st'"
    unfolding scan_step_def by (auto elim!: ebind_InrE)
  show ?thesis
  proof (cases "ch = LF \<and> close_on_newline \<and> stack \<noteq> []")
    case True
    with r show ?thesis by (auto elim!: ebind_InrE simp: case_prod_beta)
  next
    case nl: False
    show ?thesis
    proof (cases "find (\<lambda>t. startswith_at s t i) tokens")
      case None
      with r nl show ?thesis by auto
    next
      case (Some tok)
      note len = token_length[OF Some]
      show ?thesis
      proof (cases "count_trailing_backslashes (slice s 0 i) mod 2 = 1")
        case True
        with r nl Some len show ?thesis by (auto simp: Let_def)
      next
        case False
        with r nl Some obtain currency where
          c: "(if currency then Inr (i + 1, out @ [''$''], edits, stack)
               else handle_token tok i out edits stack) = Inr st'"
          by (auto simp: Let_def elim!: ebind_InrE)
        show ?thesis
        proof (cases currency)
          case True
          with c show ?thesis by auto
        next
          case False
          with c have "handle_token tok i out edits stack = Inr st'" by simp
          from handle_token_cursor[OF this] len show ?thesis by simp
        qed
      qed
    qed
  qed
qed

function scan_loop :: "bool \<Rightarrow> string \<Rightarrow> (nat \<times> nat) list \<Rightarrow> scan_state \<Rightarrow> error + scan_state" where
  "scan_loop close_on_newline s protected state =
    (if fst state < length s then
       ebind (scan_step close_on_newline s protected state) (\<lambda>state'.
         scan_loop close_on_newline s protected state')
     else Inr state)"
  by pat_completeness auto
termination
proof (relation "measure (\<lambda>(close_on_newline, s, protected, state). length s - fst state)")
  show "wf (measure (\<lambda>(close_on_newline, s, protected, state). length s - fst state))" by simp
next
  fix close_on_newline s protected and state v :: scan_state
  assume a: "fst state < length s" and b: "scan_step close_on_newline s protected state = Inr v"
  obtain i out edits stack where st: "state = (i, out, edits, stack)" by (cases state) auto
  from scan_step_progress[OF b[unfolded st]] a st
  show "((close_on_newline, s, protected, v), (close_on_newline, s, protected, state))
        \<in> measure (\<lambda>(close_on_newline, s, protected, state). length s - fst state)"
    by simp
qed

declare scan_loop.simps [simp del]

definition scan_and_fix ::
  "bool \<Rightarrow> string \<Rightarrow> (nat \<times> nat) list \<Rightarrow> error + (string \<times> edit list)" where
  "scan_and_fix close_on_newline s protected =
    (let n = length s in
     ebind (scan_loop close_on_newline s protected (0, [], [], [])) (\<lambda>(i, out, edits, stack).
       ebind (close_document n stack out edits) (\<lambda>(stack, out, edits).
         Inr (concat out, edits))))"

definition LaTeXFixer_fix :: "bool \<Rightarrow> string \<Rightarrow> error + (string \<times> edit list)" where
  \<comment> \<open>\<open>LaTeXFixer(close_on_newline).fix(text)\<close>\<close>
  "LaTeXFixer_fix close_on_newline text =
    ebind (protected_spans text) (\<lambda>protected. scan_and_fix close_on_newline text protected)"

subsection \<open>\<open>fix_align_environments\<close>\<close>

function replace :: "string \<Rightarrow> string \<Rightarrow> string \<Rightarrow> string" where
  \<comment> \<open>\<open>s.replace(old, new)\<close> for a non-empty \<open>old\<close>\<close>
  "replace old new [] = []"
| "replace old new (c # cs) =
     (if startswith (c # cs) old then new @ replace old new (drop (length old - 1) cs)
      else c # replace old new cs)"
  by pat_completeness auto
termination
  by (relation "measure (\<lambda>(old, new, s). length s)") auto

text \<open>
  \<open>re.sub(r"\)\s*(\\\w+)", r") \\\\\1", content)\<close>: a closing parenthesis, white space, a
  backslash and a maximal run of word characters; \<open>break_at\<close> gives the length of the match
  and group 1. The template writes a parenthesis, a space, two backslashes and group 1.
\<close>

definition break_at :: "string \<Rightarrow> (nat \<times> string) option" where
  "break_at t =
    (case t of
       [] \<Rightarrow> None
     | c # r \<Rightarrow>
         if c \<noteq> CHR '')'' then None
         else
           (let ws = takeWhile is_space r in
            case drop (length ws) r of
              [] \<Rightarrow> None
            | b # r2 \<Rightarrow>
                if b \<noteq> BSL then None
                else (let w = takeWhile is_word r2 in
                      if w = [] then None else Some (1 + length ws + 1 + length w, BSL # w))))"

function sub_breaks :: "string \<Rightarrow> string" where
  "sub_breaks [] = []"
| "sub_breaks (c # cs) =
     (case break_at (c # cs) of
        None \<Rightarrow> c # sub_breaks cs
      | Some (n, g) \<Rightarrow> '') '' @ [BSL, BSL] @ g @ sub_breaks (drop (n - 1) cs))"
  by pat_completeness auto
termination
  by (relation "measure length") auto

definition replacer :: "string \<Rightarrow> string" where
  \<comment> \<open>the replacement for a match with group 2 \<open>content\<close>\<close>
  "replacer content =
    (let content = replace ''$$'' [] (replace ''$$$$'' [] content);
         content = sub_breaks content
     in ''$$'' @ [LF] @ BSL # ''begin{aligned}'' @ [LF] @ strip content @ [LF]
        @ BSL # ''end{aligned}'' @ [LF] @ ''$$'')"

text \<open>
  The pattern \<open>\\begin{(align\*?|aligned)}(.*?)\\end{\1}\<close> with \<open>re.DOTALL\<close>. For group 1
  \<open>re\<close> tries \<open>align*\<close>, then \<open>align\<close>, then \<open>aligned\<close>; the lazy group 2 ends at the
  first later \<open>\end{...}\<close> of the same name. The result is the end of the match and group 2.
\<close>

fun align_envs :: "string \<Rightarrow> nat \<Rightarrow> string list \<Rightarrow> (nat \<times> string) option" where
  "align_envs s k [] = None"
| "align_envs s k (env # envs) =
     (if startswith_at s (env @ ''}'') k then
        (case find_sub (BSL # ''end{'' @ env @ ''}'') s (k + length env + 1) of
           Some j \<Rightarrow> Some (j + length (BSL # ''end{'' @ env @ ''}''), slice s (k + length env + 1) j)
         | None \<Rightarrow> align_envs s k envs)
      else align_envs s k envs)"

definition align_match :: "string \<Rightarrow> nat \<Rightarrow> (nat \<times> string) option" where
  "align_match s i =
    (if startswith_at s BEGIN i
     then align_envs s (i + length BEGIN) [''align*'', ''align'', ''aligned'']
     else None)"

function align_sub :: "string \<Rightarrow> nat \<Rightarrow> string" where
  \<comment> \<open>\<open>pattern.sub(replacer, text)\<close> from position \<open>i\<close> on\<close>
  "align_sub s i =
    (if i < length s then
       (case align_match s i of
          None \<Rightarrow> (s ! i) # align_sub s (Suc i)
        | Some (e, content) \<Rightarrow> replacer content @ align_sub s (if i < e then e else Suc i))
     else [])"
  by pat_completeness auto
termination
  by (relation "measure (\<lambda>(s, i). length s - i)") auto

declare align_sub.simps [simp del]

definition fix_align_environments :: "string \<Rightarrow> string" where
  "fix_align_environments text = align_sub text 0"

subsection \<open>\<open>fix_latex_delimiters\<close>\<close>

definition fix_latex_delimiters :: "string \<Rightarrow> bool \<Rightarrow> error + (string \<times> edit list)" where
  "fix_latex_delimiters text close_on_newline =
    ebind (LaTeXFixer_fix close_on_newline text) (\<lambda>(fixed, edits).
      let fixed = fix_align_environments fixed in Inr (fixed, edits))"

section \<open>Notions used in the statements\<close>

text \<open>The stack holds at most one entry, and every entry holds an opener.\<close>

definition stack_ok :: "stack_entry list \<Rightarrow> bool" where
  "stack_ok stack \<longleftrightarrow> length stack \<le> 1 \<and> list_all (\<lambda>e. has_key matching (fst e)) stack"


text \<open>
  The states the loop of \<open>_scan_and_fix\<close> goes through: the initial state, and the state
  after each turn taken while the cursor is inside the text.
\<close>

inductive reach :: "bool \<Rightarrow> string \<Rightarrow> (nat \<times> nat) list \<Rightarrow> scan_state \<Rightarrow> bool"
  for close_on_newline :: bool and s :: string and protected :: "(nat \<times> nat) list" where
  start: "reach close_on_newline s protected (0, [], [], [])"
| turn: "reach close_on_newline s protected state \<Longrightarrow> fst state < length s
         \<Longrightarrow> scan_step close_on_newline s protected state = Inr state'
         \<Longrightarrow> reach close_on_newline s protected state'"

text \<open>The closer that \<open>_matching\<close> gives for the opener of a stack entry, and the edit
  made for an entry still open at the end of a text of length \<open>n\<close>.\<close>

definition closer_of :: "stack_entry \<Rightarrow> string" where
  "closer_of e = (case map_of matching (fst e) of None \<Rightarrow> [] | Some c \<Rightarrow> c)"

definition end_edit :: "nat \<Rightarrow> stack_entry \<Rightarrow> edit" where
  "end_edit n e = Edit Insert n [] (closer_of e)
      (''Inserted missing closer '' @ closer_of e @ '' at end of document'')"

lemma span_find_end: "find (\<lambda>(st, en). st \<le> i \<and> i < en) protected = Some (st, en) \<Longrightarrow> i < en"
  by (drule find_Some_set) simp

lemma token_step:
  "find (\<lambda>t. startswith_at s t i) tokens = Some tok \<Longrightarrow> i < length s
   \<Longrightarrow> length s - (i + length tok) < length s - i"
  by (drule token_length) arith

text \<open>
  Balanced delimiters, read the way the scan reads the text: outside the protected spans,
  every token that is neither escaped nor the dollar sign of an amount is an opener when no
  math is open, and is the closer of the open math otherwise; with \<open>close_on_newline\<close> no
  math is open at a newline, and none is open at the end. The last argument is the opener
  of the math that is open at position \<open>i\<close>.
\<close>

function balanced :: "bool \<Rightarrow> string \<Rightarrow> (nat \<times> nat) list \<Rightarrow> nat \<Rightarrow> string option \<Rightarrow> bool" where
  "balanced close_on_newline s protected i opn =
    (if i < length s then
       (case find (\<lambda>(st, en). st \<le> i \<and> i < en) protected of
          Some (st, en) \<Rightarrow> balanced close_on_newline s protected en opn
        | None \<Rightarrow>
            if s ! i = LF \<and> close_on_newline \<and> opn \<noteq> None then False
            else
              (case find (\<lambda>t. startswith_at s t i) tokens of
                 None \<Rightarrow> balanced close_on_newline s protected (Suc i) opn
               | Some tok \<Rightarrow>
                   if count_trailing_backslashes (slice s 0 i) mod 2 = 1
                   then balanced close_on_newline s protected (i + length tok) opn
                   else if tok = ''$'' \<and> opn = None \<and> looks_like_currency s i = Inr True
                   then balanced close_on_newline s protected (Suc i) opn
                   else
                     (case opn of
                        None \<Rightarrow> has_key openers tok
                                \<and> balanced close_on_newline s protected (i + length tok) (Some tok)
                      | Some opener \<Rightarrow> lookup matching opener = Inr tok
                                \<and> balanced close_on_newline s protected (i + length tok) None)))
     else opn = None)"
  by pat_completeness auto
termination
  by (relation "measure (\<lambda>(close_on_newline, s, protected, i, opn). length s - i)")
     (auto dest: span_find_end intro: token_step)

declare balanced.simps [simp del]

text \<open>No align-family environment is matched anywhere in the text.\<close>

definition align_free :: "string \<Rightarrow> bool" where
  "align_free s \<longleftrightarrow> list_all (\<lambda>i. align_match s i = None) [0..<length s]"

text \<open>Every position at which a delimiter token starts lies in a protected span.\<close>

definition tokens_protected :: "string \<Rightarrow> (nat \<times> nat) list \<Rightarrow> bool" where
  "tokens_protected s spans \<longleftrightarrow>
     list_all (\<lambda>i. in_protected i spans \<or> find (\<lambda>t. startswith_at s t i) tokens = None)
       [0..<length s]"

text \<open>A span lies inside one of the spans of a list.\<close>

definition covered :: "(nat \<times> nat) list \<Rightarrow> nat \<times> nat \<Rightarrow> bool" where
  "covered ms x \<longleftrightarrow> (\<exists>m \<in> set ms. fst m \<le> fst x \<and> snd x \<le> snd m)"

section \<open>Properties of the code-fence functions\<close>

subsection \<open>The fence patterns\<close>

lemma OPEN_FENCE_RE_cases:
  obtains (nomatch) "OPEN_FENCE_RE line = None"
  | (match) g1 g2 where "OPEN_FENCE_RE line = Some (g1, g2)" and "3 \<le> length g1"
proof -
  define G1 where "G1 = takeWhile is_fence (dropWhile is_space line)"
  define G2 where "G2 = takeWhile is_tag (dropWhile is_space (dropWhile is_fence (dropWhile is_space line)))"
  define R3 where "R3 = dropWhile is_space (dropWhile is_tag (dropWhile is_space (dropWhile is_fence (dropWhile is_space line))))"
  have eq: "OPEN_FENCE_RE line = (if 3 \<le> length G1 \<and> R3 = [] then Some (G1, G2) else None)"
    unfolding OPEN_FENCE_RE_def Let_def G1_def G2_def R3_def by (rule refl)
  show thesis
  proof (cases "3 \<le> length G1 \<and> R3 = []")
    case True
    with eq have "OPEN_FENCE_RE line = Some (G1, G2)" by simp
    with True show thesis by (intro match[of G1 G2]) simp_all
  next
    case False
    with eq have "OPEN_FENCE_RE line = None" by simp
    then show thesis by (rule nomatch)
  qed
qed

lemma OPEN_FENCE_RE_group1: "OPEN_FENCE_RE line = Some (g1, g2) \<Longrightarrow> 3 \<le> length g1"
  by (cases line rule: OPEN_FENCE_RE_cases) simp_all

lemma CLOSE_FENCE_RE_cases:
  obtains (nomatch) "CLOSE_FENCE_RE line = None"
  | (match) g1 where "CLOSE_FENCE_RE line = Some g1" and "3 \<le> length g1"
     and "OPEN_FENCE_RE line = Some (g1, [])"
proof -
  define G1 where "G1 = takeWhile is_fence (dropWhile is_space line)"
  define R2 where "R2 = dropWhile is_space (dropWhile is_fence (dropWhile is_space line))"
  have eq: "CLOSE_FENCE_RE line = (if 3 \<le> length G1 \<and> R2 = [] then Some G1 else None)"
    unfolding CLOSE_FENCE_RE_def Let_def G1_def R2_def by (rule refl)
  have eq2: "OPEN_FENCE_RE line =
      (if 3 \<le> length G1 \<and> dropWhile is_space (dropWhile is_tag R2) = []
       then Some (G1, takeWhile is_tag R2) else None)"
    unfolding OPEN_FENCE_RE_def Let_def G1_def R2_def by (rule refl)
  show thesis
  proof (cases "3 \<le> length G1 \<and> R2 = []")
    case True
    with eq have a: "CLOSE_FENCE_RE line = Some G1" by simp
    from True have r2: "R2 = []" and g: "3 \<le> length G1" by simp_all
    have b: "OPEN_FENCE_RE line = Some (G1, [])"
      unfolding eq2 r2 using g by simp
    from a g b show thesis by (rule match)
  next
    case False
    with eq have "CLOSE_FENCE_RE line = None" by simp
    then show thesis by (rule nomatch)
  qed
qed

lemma CLOSE_FENCE_RE_group1: "CLOSE_FENCE_RE line = Some g \<Longrightarrow> 3 \<le> length g"
  by (cases line rule: CLOSE_FENCE_RE_cases) simp_all

lemma close_imp_open: "CLOSE_FENCE_RE line = Some g \<Longrightarrow> OPEN_FENCE_RE line = Some (g, [])"
  by (cases line rule: CLOSE_FENCE_RE_cases) simp_all


lemma validate_step_returns: "returns (validate_step i line st)"
proof -
  obtain in_block fence_char fence_len open_line where st: "st = (in_block, fence_char, fence_len, open_line)"
    by (cases st) auto
  show ?thesis
  proof (cases in_block)
    case False
    show ?thesis
    proof (cases "OPEN_FENCE_RE line")
      case None
      with st False show ?thesis by (simp add: validate_step_def)
    next
      case (Some g)
      obtain g1 g2 where g: "g = (g1, g2)" by (cases g) auto
      with Some have "0 < length g1" using OPEN_FENCE_RE_group1 by fastforce
      with st False Some g show ?thesis by (simp add: validate_step_def)
    qed
  next
    case True
    show ?thesis
    proof (cases "CLOSE_FENCE_RE line")
      case None
      with st True show ?thesis by (simp add: validate_step_def)
    next
      case (Some g1)
      then have "0 < length g1" using CLOSE_FENCE_RE_group1 by fastforce
      with st True Some show ?thesis by (simp add: validate_step_def)
    qed
  qed
qed

lemma unclosed_sweep_returns: "returns (unclosed_sweep i ls st)"
proof (induction ls arbitrary: i st)
  case Nil
  show ?case by simp
next
  case (Cons l ls)
  from validate_step_returns[of i l st] obtain st1 where "validate_step i l st = Inr st1"
    by (rule returnsE)
  with Cons show ?case by simp
qed

lemma validate_code_fences_returns: "returns (validate_code_fences text)"
  unfolding validate_code_fences_def Let_def
  by (rule returns_ebind[OF unclosed_sweep_returns]) (simp add: case_prod_beta)

lemma close_matches_returns: "orig_series \<noteq> [] \<Longrightarrow> returns (close_matches line orig_series fl)"
proof (cases "CLOSE_FENCE_RE line")
  case None
  then show ?thesis by (simp add: close_matches_def)
next
  case (Some g)
  assume "orig_series \<noteq> []"
  moreover from Some have "0 < length g" using CLOSE_FENCE_RE_group1 by fastforce
  ultimately show ?thesis using Some by (simp add: close_matches_def)
qed

lemma looks_like_section_boundary_returns:
  "idx < length lines \<Longrightarrow> returns (looks_like_section_boundary lines idx)"
  by (simp add: looks_like_section_boundary_def prev_nonblank_is_blank_def Let_def)

lemma collect_returns:
  "orig_series \<noteq> [] \<Longrightarrow> returns (collect lines orig_series fence_len i code_buf changes)"
proof (induction lines orig_series fence_len i code_buf changes rule: collect.induct)
  case (1 lines orig_series fence_len i code_buf changes)
  show ?case
  proof (cases "i < length lines")
    case False
    then show ?thesis by (subst collect.simps) simp
  next
    case True
    from close_matches_returns[OF "1.prems", of "lines ! i" fence_len]
    obtain hit where h: "close_matches (lines ! i) orig_series fence_len = Inr hit"
      by (rule returnsE)
    from looks_like_section_boundary_returns[OF True]
    obtain b where b: "looks_like_section_boundary lines i = Inr b"
      by (rule returnsE)
    show ?thesis
    proof (cases "hit \<or> b")
      case True
      with \<open>i < length lines\<close> h b show ?thesis by (subst collect.simps) auto
    next
      case False
      then have nh: "\<not> hit" and nb: "\<not> b" by auto
      have g: "getitem lines i = Inr (lines ! i)" using True by simp
      from "1.IH"[OF True g h nh b nb "1.prems"] True h b nh nb
      show ?thesis by (subst collect.simps) simp
    qed
  qed
qed

lemma rebuild_block_returns:
  "returns (rebuild_block default_lang fence_char fence_len lang closed code_buf out changes)"
  unfolding rebuild_block_def Let_def
proof (rule returns_ebind)
  show "returns (if run_lengths fence_char 0 (join [LF] code_buf) \<noteq> []
      then ebind (py_max (run_lengths fence_char 0 (join [LF] code_buf))) (\<lambda>m. Inr (max 3 (m + 1)))
      else Inr (max 3 3))"
    by (cases "run_lengths fence_char 0 (join [LF] code_buf)") (simp_all add: py_max_def)
qed (simp only: case_prod_beta returns_Inr)

lemma fix_block_returns:
  assumes "OPEN_FENCE_RE line = Some (orig_series, g2)"
  shows "returns (fix_block lines default_lang keep_fence_char i orig_series g2 out changes)"
proof -
  from assms have ne: "orig_series \<noteq> []" using OPEN_FENCE_RE_group1 by fastforce
  have fc: "returns (if keep_fence_char then getitem orig_series 0 else Inr BQ)"
    using ne by simp
  show ?thesis
    unfolding fix_block_def Let_def
    apply (rule returns_ebind[OF fc])
    apply (rule returns_ebind[OF collect_returns[OF ne]])
    apply (simp only: case_prod_beta)
    apply (rule returns_ebind[OF rebuild_block_returns])
    apply (simp only: case_prod_beta returns_Inr)
    done
qed

lemma fix_loop_returns:
  "returns (fix_loop lines default_lang keep_fence_char i out changes)"
proof (induction lines default_lang keep_fence_char i out changes rule: fix_loop.induct)
  case (1 lines default_lang keep_fence_char i out changes)
  show ?case
  proof (cases "i < length lines")
    case False
    then show ?thesis by (subst fix_loop.simps) simp
  next
    case True
    then have g: "getitem lines i = Inr (lines ! i)" by simp
    show ?thesis
    proof (cases "OPEN_FENCE_RE (lines ! i)")
      case None
      from "1.IH"(1)[OF True g None] None True show ?thesis
        by (subst fix_loop.simps) simp
    next
      case (Some m)
      obtain orig_series g2 where m: "m = (orig_series, g2)" by (cases m) auto
      from fix_block_returns[OF Some[unfolded m], of lines default_lang keep_fence_char i out changes]
      obtain r where
        r: "fix_block lines default_lang keep_fence_char i orig_series g2 out changes = Inr r"
        by (rule returnsE)
      obtain j out' changes' where r': "r = (j, out', changes')"
        by (cases r) auto
      note fb = r[unfolded r']
      from "1.IH"(2)[OF True g Some m[symmetric] fb refl refl]
      show ?thesis using True Some m fb
        by (subst fix_loop.simps) simp
    qed
  qed
qed

lemma fix_code_fences_returns:
  "returns (fix_code_fences text default_lang keep_fence_char)"
  unfolding fix_code_fences_def Let_def
  by (rule returns_ebind[OF fix_loop_returns]) (simp add: case_prod_beta)

lemma ensure_fenced_code_returns:
  "returns (ensure_fenced_code text default_lang keep_fence_char)"
  unfolding ensure_fenced_code_def
  apply (rule returns_ebind[OF validate_code_fences_returns])
  apply (simp only: case_prod_beta split: if_split)
  apply (intro conjI impI returns_ebind[OF fix_code_fences_returns] returns_ebind[OF validate_code_fences_returns])
   apply (simp_all only: case_prod_beta returns_Inr)
  apply (intro conjI impI returns_ebind[OF fix_code_fences_returns] returns_ebind[OF validate_code_fences_returns])
  apply (simp_all only: case_prod_beta returns_Inr)
  done

subsection \<open>The validator\<close>

lemma stray_sweep_id: "stray_sweep i lines depth issues = issues"
proof (induction lines arbitrary: i depth issues)
  case Nil
  show ?case by simp
next
  case (Cons l ls)
  show ?case
  proof (cases "OPEN_FENCE_RE l")
    case None
    then have "CLOSE_FENCE_RE l = None"
      using close_imp_open[of l] by (cases "CLOSE_FENCE_RE l") auto
    with None Cons show ?thesis by simp
  next
    case (Some a)
    with Cons show ?thesis by simp
  qed
qed

text \<open>
  Claim C1 (a stray closing fence is reported as "Closing fence without opening on line N").
  On the text of the repository's own test for a stray closing fence, whose line 5 is a
  closing fence with no opener, \<open>validate_code_fences\<close> reports only an unclosed fence
  opened on line 5. The counter-based sweep never reports anything: every line that
  \<open>CLOSE_FENCE_RE\<close> matches is matched by \<open>OPEN_FENCE_RE\<close> too, whose language tag may
  be empty, and the sweep tests \<open>OPEN_FENCE_RE\<close> first, so it returns the issues it was
  given.
\<close>

theorem validate_code_fences_stray_closing:
  "validate_code_fences (''some text'' @ [LF] @ [BQ, BQ, BQ] @ [LF] @ ''print('' @ [SQ] @ ''x''
       @ [SQ] @ '')'' @ [LF] @ [BQ, BQ, BQ] @ [LF] @ [BQ, BQ, BQ])
     = Inr (False, [''Unclosed code fence started on line 5''])
   \<and> (\<forall>i lines depth issues. stray_sweep i lines depth issues = issues)"
proof
  show "validate_code_fences (''some text'' @ [LF] @ [BQ, BQ, BQ] @ [LF] @ ''print('' @ [SQ] @ ''x''
       @ [SQ] @ '')'' @ [LF] @ [BQ, BQ, BQ] @ [LF] @ [BQ, BQ, BQ])
     = Inr (False, [''Unclosed code fence started on line 5''])"
    by code_simp
  show "\<forall>i lines depth issues. stray_sweep i lines depth issues = issues"
    by (simp add: stray_sweep_id)
qed

subsection \<open>The repairer\<close>

text \<open>
  Claim C10 (\<open>ensure_fenced_code\<close> returns the text of one application of
  \<open>fix_code_fences\<close>). For every text and every pair of options both functions return,
  and with the same repaired text; only the lists of messages may differ.
\<close>

theorem ensure_fenced_code_text:
  "\<exists>fixed changes msgs.
     fix_code_fences text default_lang keep_fence_char = Inr (fixed, changes)
     \<and> ensure_fenced_code text default_lang keep_fence_char = Inr (fixed, msgs)"
proof -
  from validate_code_fences_returns[of "text"] obtain v where "validate_code_fences text = Inr v"
    by (rule returnsE)
  then obtain ok issues where v: "validate_code_fences text = Inr (ok, issues)"
    by (cases v) simp
  from fix_code_fences_returns[of "text" default_lang keep_fence_char]
  obtain f where "fix_code_fences text default_lang keep_fence_char = Inr f"
    by (rule returnsE)
  then obtain fixed changes where
    f: "fix_code_fences text default_lang keep_fence_char = Inr (fixed, changes)"
    by (cases f) simp
  from validate_code_fences_returns[of fixed] obtain v2 where "validate_code_fences fixed = Inr v2"
    by (rule returnsE)
  then obtain ok2 issues2 where v2: "validate_code_fences fixed = Inr (ok2, issues2)"
    by (cases v2) simp
  have "ensure_fenced_code text default_lang keep_fence_char
        = Inr (fixed, if \<not> ok then issues @ changes @ (if \<not> ok2 then [''Still invalid after fix''] else [])
                      else changes)"
    unfolding ensure_fenced_code_def v f by (simp add: v2)
  with f show ?thesis by blast
qed





section \<open>Properties of the math-delimiter functions\<close>

subsection \<open>The turns of the scan\<close>

lemma looks_like_currency_returns: "returns (looks_like_currency s i)"
  by (cases "currency_re (drop i s)") (simp_all add: looks_like_currency_def Let_def)

lemma looks_like_currency_bool:
  obtains b where "looks_like_currency s i = Inr b"
  using looks_like_currency_returns[of s i] by (rule returnsE)

lemma scan_step_protected:
  assumes "in_protected i protected"
  obtains st en where "find (\<lambda>(st, en). st \<le> i \<and> i < en) protected = Some (st, en)"
    and "st \<le> i" and "i < en"
    and "scan_step close_on_newline s protected (i, out, edits, stack)
         = Inr (en, out @ [slice s i en], edits, stack)"
proof -
  from assms have "\<exists>st en. find (\<lambda>(st, en). st \<le> i \<and> i < en) protected = Some (st, en) \<and> st \<le> i \<and> i < en"
    unfolding in_protected_def by (induction protected) (auto split: if_splits)
  then obtain st en where f: "find (\<lambda>(st, en). st \<le> i \<and> i < en) protected = Some (st, en)"
    and "st \<le> i" "i < en" by blast
  moreover from f assms have "scan_step close_on_newline s protected (i, out, edits, stack)
         = Inr (en, out @ [slice s i en], edits, stack)"
    by (simp add: scan_step_def)
  ultimately show thesis by (rule that)
qed

lemma scan_step_newline:
  assumes "i < length s" "\<not> in_protected i protected" "s ! i = LF" "close_on_newline" "stack \<noteq> []"
  shows "scan_step close_on_newline s protected (i, out, edits, stack)
         = ebind (close_line i stack out edits) (\<lambda>(stack', out', edits').
             Inr (i + 1, out' @ [[LF]], edits', stack'))"
  using assms by (simp add: scan_step_def)

lemma scan_step_plain:
  assumes "i < length s" "\<not> in_protected i protected"
    and "\<not> (s ! i = LF \<and> close_on_newline \<and> stack \<noteq> [])"
    and "find (\<lambda>t. startswith_at s t i) tokens = None"
  shows "scan_step close_on_newline s protected (i, out, edits, stack)
         = Inr (i + 1, out @ [[s ! i]], edits, stack)"
  using assms by (auto simp: scan_step_def)

lemma token_not_newline:
  assumes "find (\<lambda>t. startswith_at s t i) tokens = Some tok" "i < length s"
  shows "s ! i \<noteq> LF"
proof -
  from find_Some_set[OF assms(1)] have t: "tok \<in> set tokens" and sw: "startswith_at s tok i"
    by simp_all
  from t obtain c cs where tok: "tok = c # cs" and c: "c = BSL \<or> c = CHR ''$''"
    by (auto simp: tokens_def)
  from sw tok have "take (Suc (length cs)) (drop i s) = c # cs"
    by (simp add: startswith_at_def)
  with assms(2) have "s ! i = c"
    by (metis Cons_nth_drop_Suc list.sel(1) take_Suc_Cons)
  with c show ?thesis by auto
qed

lemma scan_step_escaped:
  assumes "i < length s" "\<not> in_protected i protected"
    and "find (\<lambda>t. startswith_at s t i) tokens = Some tok"
    and "count_trailing_backslashes (slice s 0 i) mod 2 = 1"
  shows "scan_step close_on_newline s protected (i, out, edits, stack)
         = Inr (i + length tok, out @ [tok], edits, stack)"
  using assms token_not_newline[OF assms(3,1)] by (simp add: scan_step_def Let_def)

lemma scan_step_currency:
  assumes "i < length s" "\<not> in_protected i protected"
    and "find (\<lambda>t. startswith_at s t i) tokens = Some ''$''"
    and "count_trailing_backslashes (slice s 0 i) mod 2 \<noteq> 1"
    and "stack = []" "looks_like_currency s i = Inr True"
  shows "scan_step close_on_newline s protected (i, out, edits, stack)
         = Inr (i + 1, out @ [''$''], edits, stack)"
  using assms token_not_newline[OF assms(3,1)] by (simp add: scan_step_def Let_def)

lemma scan_step_token:
  assumes "i < length s" "\<not> in_protected i protected"
    and "find (\<lambda>t. startswith_at s t i) tokens = Some tok"
    and "count_trailing_backslashes (slice s 0 i) mod 2 \<noteq> 1"
    and "\<not> (tok = ''$'' \<and> stack = [] \<and> looks_like_currency s i = Inr True)"
  shows "scan_step close_on_newline s protected (i, out, edits, stack)
         = handle_token tok i out edits stack"
proof -
  obtain b where b: "looks_like_currency s i = Inr b" by (rule looks_like_currency_bool)
  show ?thesis
    using assms token_not_newline[OF assms(3,1)] b
    by (cases "tok = ''$'' \<and> stack = []") (auto simp: scan_step_def Let_def)
qed

subsection \<open>The stack of open math entries\<close>

lemma stack_ok_Nil [simp]: "stack_ok []"
  by (simp add: stack_ok_def)

lemma stack_ok_single: "has_key matching tok \<Longrightarrow> stack_ok [(tok, a, b)]"
  by (simp add: stack_ok_def)

lemma stack_ok_cases:
  assumes "stack_ok stack"
  obtains (empty) "stack = []"
  | (single) tok a b where "stack = [(tok, a, b)]" and "has_key matching tok"
proof (cases stack)
  case Nil
  then show thesis by (rule empty)
next
  case (Cons e es)
  with assms have "es = []" by (simp add: stack_ok_def)
  with Cons assms show thesis by (cases e) (auto intro: single simp: stack_ok_def)
qed

lemma lookup_matching: "has_key matching tok \<Longrightarrow> \<exists>c. lookup matching tok = Inr c"
  by (auto simp: has_key_def lookup_def)

lemma insert_closer_matching:
  assumes "has_key matching tok_open"
  obtains closer where "lookup matching tok_open = Inr closer"
    and "insert_closer i tok_open where_desc out edits
         = Inr (out @ [closer],
                edits @ [Edit Insert i [] closer
                   (''Inserted missing closer '' @ closer @ '' for '' @ tok_open @ '' '' @ where_desc)])"
proof -
  from lookup_matching[OF assms] obtain c where c: "lookup matching tok_open = Inr c" by blast
  then show thesis by (intro that[of c]) (simp_all add: insert_closer_def)
qed

lemma opener_token:
  assumes "tok \<in> set tokens" "classify tok stack = Inr (True, c)"
  shows "has_key matching tok"
  using assms
  by (auto simp: tokens_def classify_def has_key_def openers_def closers_def matching_def
           split: if_splits)

lemma classify_returns: "returns (classify tok stack)"
  by (cases "stack = []") (simp_all add: classify_def py_last_def)

lemma classify_opener_closer: "classify tok stack = Inr (a, b) \<Longrightarrow> b = (\<not> a)"
  by (cases "stack = []") (auto simp: classify_def py_last_def split: if_splits)

lemma handle_opener_empty:
  "handle_opener tok i out edits [] = Inr (i + length tok, out @ [tok], edits, [(tok, length out, i)])"
  by (simp add: handle_opener_def)

lemma handle_opener_single:
  assumes "lookup matching open_tok = Inr closer"
  shows "handle_opener tok i out edits [(open_tok, a, b)]
     = Inr (i + length tok, out @ [closer, tok],
            edits @ [Edit Insert i [] closer
               (''Inserted missing closer '' @ closer @ '' for '' @ open_tok
                @ '' before opening a new math block'')],
            [(tok, Suc (length out), i)])"
  using assms by (simp add: handle_opener_def py_pop_def insert_closer_def)

lemma handle_closer_empty:
  "handle_closer tok i out edits []
   = Inr (i + length tok, out, edits @ [Edit Delete i tok [] (''Stray closer '' @ tok @ '' removed'')], [])"
  by (simp add: handle_closer_def)

lemma handle_closer_match:
  assumes "lookup matching open_tok = Inr tok"
  shows "handle_closer tok i out edits [(open_tok, a, b)] = Inr (i + length tok, out @ [tok], edits, [])"
  using assms by (simp add: handle_closer_def py_pop_def py_last_def)

lemma handle_closer_mismatch:
  assumes "lookup matching open_tok = Inr want_closer" "tok \<noteq> want_closer"
  shows "handle_closer tok i out edits [(open_tok, a, b)]
     = Inr (i + length tok, out @ [want_closer],
            edits @ [Edit Replace i tok want_closer
               (''Mismatched closer: '' @ tok @ '' -> '' @ want_closer @ '' for opener '' @ open_tok)],
            [])"
  using assms by (simp add: handle_closer_def py_pop_def py_last_def)

lemma handle_token_ok:
  assumes "stack_ok stack" "tok \<in> set tokens"
  obtains i' out' edits' stack' where
    "handle_token tok i out edits stack = Inr (i', out', edits', stack')" and "stack_ok stack'"
proof -
  from classify_returns[of tok stack] obtain r where "classify tok stack = Inr r" by (rule returnsE)
  then obtain a b where cl: "classify tok stack = Inr (a, b)" by (cases r) simp
  show thesis
  proof (cases a)
    case True
    with cl have "classify tok stack = Inr (True, b)" by simp
    from opener_token[OF assms(2) this] have hk: "has_key matching tok" .
    from assms(1) show thesis
    proof (cases rule: stack_ok_cases)
      case empty
      with cl True have "handle_token tok i out edits stack
          = Inr (i + length tok, out @ [tok], edits, [(tok, length out, i)])"
        by (simp add: handle_token_def handle_opener_empty)
      then show thesis using stack_ok_single[OF hk] by (rule that)
    next
      case (single open_tok x y)
      from lookup_matching[OF single(2)] obtain closer where
        c: "lookup matching open_tok = Inr closer" by blast
      from cl True single(1) have "handle_token tok i out edits stack
          = handle_opener tok i out edits [(open_tok, x, y)]"
        by (simp add: handle_token_def)
      then show thesis
        unfolding handle_opener_single[OF c] using stack_ok_single[OF hk] by (rule that)
    qed
  next
    case False
    from assms(1) show thesis
    proof (cases rule: stack_ok_cases)
      case empty
      with cl False have "handle_token tok i out edits stack
          = Inr (i + length tok, out, edits @ [Edit Delete i tok [] (''Stray closer '' @ tok @ '' removed'')], [])"
        by (simp add: handle_token_def handle_closer_empty)
      then show thesis using stack_ok_Nil by (rule that)
    next
      case (single open_tok x y)
      from lookup_matching[OF single(2)] obtain want where
        c: "lookup matching open_tok = Inr want" by blast
      from cl False single(1) have h: "handle_token tok i out edits stack
          = handle_closer tok i out edits [(open_tok, x, y)]"
        by (simp add: handle_token_def)
      show thesis
      proof (cases "tok = want")
        case True
        with c have "lookup matching open_tok = Inr tok" by simp
        from h[unfolded handle_closer_match[OF this]] show thesis
          using stack_ok_Nil by (rule that)
      next
        case False
        from h[unfolded handle_closer_mismatch[OF c False]] show thesis
          using stack_ok_Nil by (rule that)
      qed
    qed
  qed
qed

lemma close_line_Nil: "close_line i [] out edits = Inr ([], out, edits)"
  by (subst close_line.simps) simp

lemma close_line_single:
  assumes "lookup matching tok_open = Inr closer"
  shows "close_line i [(tok_open, a, b)] out edits
     = Inr ([], out @ [closer],
            edits @ [Edit Insert i [] closer
               (''Inserted missing closer '' @ closer @ '' for '' @ tok_open @ '' at end of line'')])"
  using assms
  by (subst close_line.simps) (simp add: py_pop_def insert_closer_def close_line_Nil)

lemma scan_step_ok:
  assumes "stack_ok stack" "i < length s"
  obtains i' out' edits' stack' where
    "scan_step close_on_newline s protected (i, out, edits, stack) = Inr (i', out', edits', stack')"
    and "stack_ok stack'"
proof (cases "in_protected i protected")
  case True
  then show thesis
    by (rule scan_step_protected) (rule that, assumption, rule assms(1))
next
  case np: False
  show thesis
  proof (cases "s ! i = LF \<and> close_on_newline \<and> stack \<noteq> []")
    case True
    with assms(1) obtain tok a b where st: "stack = [(tok, a, b)]" and hk: "has_key matching tok"
      by (cases rule: stack_ok_cases) auto
    from lookup_matching[OF hk] obtain closer where c: "lookup matching tok = Inr closer" by blast
    from True have "s ! i = LF" "close_on_newline" "stack \<noteq> []" by simp_all
    from scan_step_newline[OF assms(2) np this, of out edits]
    have "scan_step close_on_newline s protected (i, out, edits, stack)
        = Inr (i + 1, (out @ [closer]) @ [[LF]],
               edits @ [Edit Insert i [] closer
                  (''Inserted missing closer '' @ closer @ '' for '' @ tok @ '' at end of line'')],
               [])"
      unfolding st close_line_single[OF c] by simp
    then show thesis by (rule that) simp
  next
    case nl: False
    show thesis
    proof (cases "find (\<lambda>t. startswith_at s t i) tokens")
      case None
      from scan_step_plain[OF assms(2) np nl None] show thesis
        by (rule that) (rule assms(1))
    next
      case (Some tok)
      then have tk: "tok \<in> set tokens" using find_Some_set by fastforce
      show thesis
      proof (cases "count_trailing_backslashes (slice s 0 i) mod 2 = 1")
        case True
        from scan_step_escaped[OF assms(2) np Some True] show thesis
          by (rule that) (rule assms(1))
      next
        case ev: False
        show thesis
        proof (cases "tok = ''$'' \<and> stack = [] \<and> looks_like_currency s i = Inr True")
          case True
          then have "find (\<lambda>t. startswith_at s t i) tokens = Some ''$''" "stack = []"
            "looks_like_currency s i = Inr True" using Some by simp_all
          from scan_step_currency[OF assms(2) np this(1) ev this(2,3)] show thesis
            by (rule that) (rule assms(1))
        next
          case False
          from handle_token_ok[OF assms(1) tk, of i out edits]
          obtain i' out' edits' stack' where
            h: "handle_token tok i out edits stack = Inr (i', out', edits', stack')" and ok: "stack_ok stack'"
            by blast
          from scan_step_token[OF assms(2) np Some ev False, of close_on_newline out edits] h
          have "scan_step close_on_newline s protected (i, out, edits, stack) = Inr (i', out', edits', stack')"
            by simp
          then show thesis using ok by (rule that)
        qed
      qed
    qed
  qed
qed

subsection \<open>Invariants of the scan\<close>

lemma reach_stack_ok:
  assumes "reach close_on_newline s protected state"
  shows "stack_ok (snd (snd (snd state)))"
  using assms
proof (induction rule: reach.induct)
  case start
  show ?case by simp
next
  case (turn state state')
  obtain i out edits stack where st: "state = (i, out, edits, stack)" by (cases state) auto
  from turn.IH st have ok: "stack_ok stack" by simp
  from turn.hyps(2) st have i: "i < length s" by simp
  from scan_step_ok[OF ok i, of close_on_newline protected out edits]
  obtain i' out' edits' stack' where
    "scan_step close_on_newline s protected (i, out, edits, stack) = Inr (i', out', edits', stack')"
    and "stack_ok stack'" by blast
  with turn.hyps(3) st show ?case by auto
qed

lemma scan_loop_reach:
  assumes "reach close_on_newline s protected state"
  shows "\<exists>state'. scan_loop close_on_newline s protected state = Inr state'
           \<and> reach close_on_newline s protected state' \<and> length s \<le> fst state'"
  using assms
proof (induction close_on_newline s protected state rule: scan_loop.induct)
  case (1 close_on_newline s protected state)
  show ?case
  proof (cases "fst state < length s")
    case False
    with "1.prems" show ?thesis by (subst scan_loop.simps) simp
  next
    case True
    obtain i out edits stack where st: "state = (i, out, edits, stack)" by (cases state) auto
    from reach_stack_ok[OF "1.prems"] st have ok: "stack_ok stack" by simp
    from True st have i: "i < length s" by simp
    from scan_step_ok[OF ok i, of close_on_newline protected out edits]
    obtain i' out' edits' stack' where
      "scan_step close_on_newline s protected (i, out, edits, stack) = Inr (i', out', edits', stack')"
      and "stack_ok stack'"
      by blast
    with st have step: "scan_step close_on_newline s protected state = Inr (i', out', edits', stack')"
      by simp
    from reach.turn[OF "1.prems" True step]
    have "reach close_on_newline s protected (i', out', edits', stack')" .
    from "1.IH"[OF True step this] True step show ?thesis
      by (subst scan_loop.simps) simp
  qed
qed



subsection \<open>No entry point raises\<close>

lemma close_document_Nil: "close_document n [] out edits = Inr ([], out, edits)"
  by (subst close_document.simps) simp

lemma close_document_single:
  assumes "lookup matching tok_open = Inr closer"
  shows "close_document n [(tok_open, a, b)] out edits
     = Inr ([], out @ [closer],
            edits @ [Edit Insert n [] closer
               (''Inserted missing closer '' @ closer @ '' at end of document'')])"
  using assms
  by (subst close_document.simps) (simp add: py_pop_def close_document_Nil)

lemma close_document_returns:
  assumes "stack_ok stack"
  shows "returns (close_document n stack out edits)"
  using assms
proof (cases rule: stack_ok_cases)
  case empty
  then show ?thesis by (simp add: close_document_Nil)
next
  case (single tok a b)
  from lookup_matching[OF single(2)] obtain c where "lookup matching tok = Inr c" by blast
  from close_document_single[OF this] single(1) show ?thesis by simp
qed

lemma scan_and_fix_returns: "returns (scan_and_fix close_on_newline s protected)"
proof -
  from scan_loop_reach[OF reach.start, of close_on_newline s protected]
  obtain state' where l: "scan_loop close_on_newline s protected (0, [], [], []) = Inr state'"
    and r: "reach close_on_newline s protected state'" by blast
  obtain i out edits stack where st: "state' = (i, out, edits, stack)" by (cases state') auto
  from reach_stack_ok[OF r] st have "stack_ok stack" by simp
  from close_document_returns[OF this, of "length s" out edits]
  obtain d where "close_document (length s) stack out edits = Inr d" by (rule returnsE)
  with l st show ?thesis
    by (cases d) (simp add: scan_and_fix_def Let_def)
qed

lemma merge_spans_returns: "returns (merge_spans spans merged)"
proof (induction spans arbitrary: merged)
  case Nil
  show ?case by simp
next
  case (Cons sp spans)
  obtain st en where sp: "sp = (st, en)" by (cases sp) auto
  show ?case
  proof (cases "merged = []")
    case True
    with sp Cons show ?thesis by simp
  next
    case False
    then show ?thesis
      using sp Cons by (cases "st > snd (last merged)") (simp_all add: py_last_def)
  qed
qed

lemma protected_spans_returns: "returns (protected_spans s)"
  by (simp add: protected_spans_def Let_def merge_spans_returns)

lemma LaTeXFixer_fix_returns: "returns (LaTeXFixer_fix close_on_newline s)"
  unfolding LaTeXFixer_fix_def
  by (rule returns_ebind[OF protected_spans_returns]) (rule scan_and_fix_returns)

lemma fix_latex_delimiters_returns: "returns (fix_latex_delimiters s close_on_newline)"
  unfolding fix_latex_delimiters_def
  by (rule returns_ebind[OF LaTeXFixer_fix_returns]) (simp add: case_prod_beta Let_def)

text \<open>
  Claim C9 (the public entry points never raise). Every indexing, \<open>pop\<close>, dictionary
  lookup and \<open>max\<close> of the four entry points is a branch of the model that can yield an
  exception; for every text and every value of the options none of them is taken. The
  loops are total functions, so each call also ends.
\<close>

theorem entry_points_return:
  "returns (validate_code_fences text)
   \<and> returns (fix_code_fences text default_lang keep_fence_char)
   \<and> returns (ensure_fenced_code text default_lang keep_fence_char)
   \<and> returns (fix_latex_delimiters text close_on_newline)"
  by (intro conjI validate_code_fences_returns fix_code_fences_returns
        ensure_fenced_code_returns fix_latex_delimiters_returns)

subsection \<open>Handling of single tokens\<close>

lemma py_last_snoc [simp]: "py_last (xs @ [x]) = Inr x"
  by (simp add: py_last_def)

lemma py_pop_snoc [simp]: "py_pop (xs @ [x]) = Inr (x, xs)"
  by (simp add: py_pop_def)

lemma handle_closer_mismatch_top:
  assumes "lookup matching open_tok = Inr want_closer" "tok \<noteq> want_closer"
  shows "handle_closer tok i out edits (rest @ [(open_tok, a, b)])
     = Inr (i + length tok, out @ [want_closer],
            edits @ [Edit Replace i tok want_closer
               (''Mismatched closer: '' @ tok @ '' -> '' @ want_closer @ '' for opener '' @ open_tok)],
            rest)"
  using assms by (simp add: handle_closer_def)

text \<open>
  Claim C5 (a mismatched closer is replaced by the required one). On \<open>\(x+1\]\<close> the
  result is \<open>\(x+1\)\<close> with the single edit that replaces \<open>\]\<close> at position 5, its
  reason starting with "Mismatched closer". In general, at a cursor outside the protected
  spans where an unescaped token is classified as a closer and differs from the closer
  that \<open>_matching\<close> requires for the top entry, the turn emits the required closer, logs
  one \<open>replace\<close> edit and pops the entry.
\<close>

theorem mismatched_closer_replaced:
  "fix_latex_delimiters (BSL # ''(x+1'' @ [BSL, CHR '']'']) True
     = Inr (BSL # ''(x+1'' @ [BSL, CHR '')''],
            [Edit Replace 5 [BSL, CHR '']''] [BSL, CHR '')'']
               (''Mismatched closer: '' @ [BSL, CHR '']''] @ '' -> '' @ [BSL, CHR '')'']
                @ '' for opener '' @ [BSL, CHR ''(''] )])
   \<and> (i < length s \<and> \<not> in_protected i protected
        \<and> find (\<lambda>t. startswith_at s t i) tokens = Some tok
        \<and> count_trailing_backslashes (slice s 0 i) mod 2 \<noteq> 1
        \<and> classify tok (rest @ [(open_tok, a, b)]) = Inr (False, True)
        \<and> lookup matching open_tok = Inr want_closer \<and> tok \<noteq> want_closer
      \<longrightarrow> scan_step close_on_newline s protected (i, out, edits, rest @ [(open_tok, a, b)])
          = Inr (i + length tok, out @ [want_closer],
                 edits @ [Edit Replace i tok want_closer
                    (''Mismatched closer: '' @ tok @ '' -> '' @ want_closer
                     @ '' for opener '' @ open_tok)],
                 rest))"
proof (intro conjI impI)
  show "fix_latex_delimiters (BSL # ''(x+1'' @ [BSL, CHR '']'']) True
     = Inr (BSL # ''(x+1'' @ [BSL, CHR '')''],
            [Edit Replace 5 [BSL, CHR '']''] [BSL, CHR '')'']
               (''Mismatched closer: '' @ [BSL, CHR '']''] @ '' -> '' @ [BSL, CHR '')'']
                @ '' for opener '' @ [BSL, CHR ''(''] )])"
    by code_simp
next
  assume h: "i < length s \<and> \<not> in_protected i protected
        \<and> find (\<lambda>t. startswith_at s t i) tokens = Some tok
        \<and> count_trailing_backslashes (slice s 0 i) mod 2 \<noteq> 1
        \<and> classify tok (rest @ [(open_tok, a, b)]) = Inr (False, True)
        \<and> lookup matching open_tok = Inr want_closer \<and> tok \<noteq> want_closer"
  then have i: "i < length s" and np: "\<not> in_protected i protected"
    and f: "find (\<lambda>t. startswith_at s t i) tokens = Some tok"
    and ev: "count_trailing_backslashes (slice s 0 i) mod 2 \<noteq> 1"
    and cl: "classify tok (rest @ [(open_tok, a, b)]) = Inr (False, True)"
    and l: "lookup matching open_tok = Inr want_closer" and ne: "tok \<noteq> want_closer"
    by simp_all
  have nc: "\<not> (tok = ''$'' \<and> rest @ [(open_tok, a, b)] = []
              \<and> looks_like_currency s i = Inr True)" by simp
  have "scan_step close_on_newline s protected (i, out, edits, rest @ [(open_tok, a, b)])
        = handle_token tok i out edits (rest @ [(open_tok, a, b)])"
    by (rule scan_step_token[OF i np f ev nc])
  also have "\<dots> = handle_closer tok i out edits (rest @ [(open_tok, a, b)])"
    by (simp add: handle_token_def cl)
  finally show "scan_step close_on_newline s protected (i, out, edits, rest @ [(open_tok, a, b)])
          = Inr (i + length tok, out @ [want_closer],
                 edits @ [Edit Replace i tok want_closer
                    (''Mismatched closer: '' @ tok @ '' -> '' @ want_closer
                     @ '' for opener '' @ open_tok)],
                 rest)"
    by (simp only: handle_closer_mismatch_top[OF l ne])
qed

text \<open>The general part at the sixth turn of the scan of \<open>\(x+1\]\<close>.\<close>

theorem mismatched_closer_replaced_witness:
  "(5 < length (BSL # ''(x+1'' @ [BSL, CHR '']'']) \<and> \<not> in_protected 5 []
     \<and> find (\<lambda>t. startswith_at (BSL # ''(x+1'' @ [BSL, CHR '']'']) t 5) tokens = Some [BSL, CHR '']'']
     \<and> count_trailing_backslashes (slice (BSL # ''(x+1'' @ [BSL, CHR '']'']) 0 5) mod 2 \<noteq> 1
     \<and> classify [BSL, CHR '']''] ([] @ [([BSL, CHR ''(''], 0, 0)]) = Inr (False, True)
     \<and> lookup matching [BSL, CHR ''(''] = Inr [BSL, CHR '')''] \<and> [BSL, CHR '']''] \<noteq> [BSL, CHR '')''])
   \<and> scan_step True (BSL # ''(x+1'' @ [BSL, CHR '']'']) []
        (5, [[BSL, CHR ''(''], ''x'', ''+'', ''1''], [], [] @ [([BSL, CHR ''(''], 0, 0)])
      = Inr (5 + length [BSL, CHR '']''], [[BSL, CHR ''(''], ''x'', ''+'', ''1''] @ [[BSL, CHR '')'']],
             [] @ [Edit Replace 5 [BSL, CHR '']''] [BSL, CHR '')'']
                (''Mismatched closer: '' @ [BSL, CHR '']''] @ '' -> '' @ [BSL, CHR '')'']
                 @ '' for opener '' @ [BSL, CHR ''(''] )],
             [])"
proof -
  have h: "5 < length (BSL # ''(x+1'' @ [BSL, CHR '']'']) \<and> \<not> in_protected 5 []
     \<and> find (\<lambda>t. startswith_at (BSL # ''(x+1'' @ [BSL, CHR '']'']) t 5) tokens = Some [BSL, CHR '']'']
     \<and> count_trailing_backslashes (slice (BSL # ''(x+1'' @ [BSL, CHR '']'']) 0 5) mod 2 \<noteq> 1
     \<and> classify [BSL, CHR '']''] ([] @ [([BSL, CHR ''(''], 0, 0)]) = Inr (False, True)
     \<and> lookup matching [BSL, CHR ''(''] = Inr [BSL, CHR '')''] \<and> [BSL, CHR '']''] \<noteq> [BSL, CHR '')'']"
    by code_simp
  from mismatched_closer_replaced[of 5 "BSL # ''(x+1'' @ [BSL, CHR '']'']" "[]" "[BSL, CHR '']'']" "[]"
      "[BSL, CHR ''(''] " 0 0 "[BSL, CHR '')'']" True "[[BSL, CHR ''(''], ''x'', ''+'', ''1'']" "[]"] h
  show ?thesis by blast
qed

lemma close_document_snoc:
  assumes "lookup matching (fst e) = Inr c"
  shows "close_document n (stack @ [e]) out edits
     = close_document n stack (out @ [c])
         (edits @ [Edit Insert n [] c (''Inserted missing closer '' @ c @ '' at end of document'')])"
  using assms by (subst close_document.simps) simp

lemma close_document_all:
  assumes "list_all (\<lambda>e. has_key matching (fst e)) stack"
  shows "close_document n stack out edits
     = Inr ([], out @ map closer_of (rev stack), edits @ map (end_edit n) (rev stack))"
  using assms
proof (induction stack arbitrary: out edits rule: rev_induct)
  case Nil
  show ?case by (simp add: close_document_Nil)
next
  case (snoc e stack)
  from snoc.prems have hk: "has_key matching (fst e)"
    and rest: "list_all (\<lambda>e. has_key matching (fst e)) stack" by simp_all
  from hk have l: "lookup matching (fst e) = Inr (closer_of e)"
    by (auto simp: has_key_def lookup_def closer_of_def)
  show ?case
    unfolding close_document_snoc[OF l] snoc.IH[OF rest]
    by (simp add: end_edit_def)
qed

text \<open>
  Claim C6 (math still open at the end of the document is closed). On
  \<open>Equation: $x+1\<close> the result is \<open>Equation: $x+1$\<close> with the single edit that inserts
  \<open>$\<close> at position 14, its reason "Inserted missing closer $ at end of document". In
  general the final loop closes the entries of a stack of openers from the top down, one
  \<open>insert\<close> edit each, and \<open>_scan_and_fix\<close> does so with the stack its scan ends on.
\<close>

theorem open_math_closed_at_end:
  "fix_latex_delimiters ''Equation: $x+1'' True
     = Inr (''Equation: $x+1$'',
            [Edit Insert 14 [] ''$'' ''Inserted missing closer $ at end of document''])
   \<and> (list_all (\<lambda>e. has_key matching (fst e)) stack \<longrightarrow>
        close_document n stack out edits
        = Inr ([], out @ map closer_of (rev stack), edits @ map (end_edit n) (rev stack)))
   \<and> (scan_loop close_on_newline s protected (0, [], [], []) = Inr (i, out', edits', stack') \<longrightarrow>
        scan_and_fix close_on_newline s protected
        = Inr (concat (out' @ map closer_of (rev stack')),
               edits' @ map (end_edit (length s)) (rev stack')))"
proof (intro conjI impI)
  show "fix_latex_delimiters ''Equation: $x+1'' True
     = Inr (''Equation: $x+1$'',
            [Edit Insert 14 [] ''$'' ''Inserted missing closer $ at end of document''])"
    by code_simp
next
  assume "list_all (\<lambda>e. has_key matching (fst e)) stack"
  then show "close_document n stack out edits
        = Inr ([], out @ map closer_of (rev stack), edits @ map (end_edit n) (rev stack))"
    by (rule close_document_all)
next
  assume l: "scan_loop close_on_newline s protected (0, [], [], []) = Inr (i, out', edits', stack')"
  from scan_loop_reach[OF reach.start, of close_on_newline s protected] l
  have "reach close_on_newline s protected (i, out', edits', stack')" by simp
  from reach_stack_ok[OF this] have "list_all (\<lambda>e. has_key matching (fst e)) stack'"
    by (simp add: stack_ok_def)
  from close_document_all[OF this, of "length s" out' edits'] l
  show "scan_and_fix close_on_newline s protected
        = Inr (concat (out' @ map closer_of (rev stack')),
               edits' @ map (end_edit (length s)) (rev stack'))"
    by (simp add: scan_and_fix_def Let_def)
qed

text \<open>The general parts on the stack and the final state of the scan of \<open>$x\<close>.\<close>

theorem open_math_closed_at_end_witness:
  "list_all (\<lambda>e. has_key matching (fst e)) [([BSL, CHR ''[''], 0, 0), (''$'', 0, 0)]
   \<and> close_document 3 [([BSL, CHR ''[''], 0, 0), (''$'', 0, 0)] [] []
      = Inr ([], [] @ map closer_of (rev [([BSL, CHR ''[''], 0, 0), (''$'', 0, 0)]),
             [] @ map (end_edit 3) (rev [([BSL, CHR ''[''], 0, 0), (''$'', 0, 0)]))
   \<and> map closer_of (rev [([BSL, CHR ''[''], 0, 0), (''$'', 0, 0)]) = [''$'', [BSL, CHR '']'']]
   \<and> scan_loop True ''$x'' [] (0, [], [], []) = Inr (2, [''$'', ''x''], [], [(''$'', 0, 0)])
   \<and> scan_and_fix True ''$x'' []
      = Inr (concat ([''$'', ''x''] @ map closer_of (rev [(''$'', 0, 0)])),
             [] @ map (end_edit (length ''$x'')) (rev [(''$'', 0, 0)]))"
proof -
  have h1: "list_all (\<lambda>e. has_key matching (fst e)) [([BSL, CHR ''[''], 0, 0), (''$'', 0, 0)]"
    by code_simp
  have h2: "scan_loop True ''$x'' [] (0, [], [], []) = Inr (2, [''$'', ''x''], [], [(''$'', 0, 0)])"
    by code_simp
  have c: "map closer_of (rev [([BSL, CHR ''[''], 0, 0), (''$'', 0, 0)]) = [''$'', [BSL, CHR '']'']]"
    by code_simp
  from open_math_closed_at_end[of "[([BSL, CHR ''[''], 0, 0), (''$'', 0, 0)]" 3 "[]" "[]" True "''$x''" "[]"
      2 "[''$'', ''x'']" "[]" "[(''$'', 0, 0)]"] h1 h2 c
  show ?thesis by simp
qed



subsection \<open>Balanced text is left alone\<close>

lemma find_span_None: "find (\<lambda>(st, en). st \<le> i \<and> i < en) protected = None \<longleftrightarrow> \<not> in_protected i protected"
  unfolding in_protected_def by (induction protected) auto

lemma scan_loop_step:
  assumes "i < length s" "scan_step close_on_newline s protected (i, out, edits, stack) = Inr state'"
  shows "scan_loop close_on_newline s protected (i, out, edits, stack)
         = scan_loop close_on_newline s protected state'"
  using assms by (subst scan_loop.simps) simp

lemma scan_loop_done:
  assumes "\<not> i < length s"
  shows "scan_loop close_on_newline s protected (i, out, edits, stack) = Inr (i, out, edits, stack)"
  using assms by (subst scan_loop.simps) simp

lemma take_slice: "i \<le> en \<Longrightarrow> take i s @ slice s i en = take en s"
  by (simp add: slice_def take_add[symmetric])

lemma take_token: "startswith_at s tok i \<Longrightarrow> take i s @ tok = take (i + length tok) s"
  by (auto simp: startswith_at_def take_add)

lemma take_char: "i < length s \<Longrightarrow> take i s @ [s ! i] = take (Suc i) s"
  by (simp add: take_Suc_conv_app_nth)

lemma classify_opener_empty: "has_key openers tok \<Longrightarrow> classify tok [] = Inr (True, False)"
  by (simp add: classify_def)

lemma classify_closer_match:
  "lookup matching opener = Inr tok \<Longrightarrow> classify tok [(opener, a, b)] = Inr (False, True)"
  by (auto simp: lookup_def matching_def classify_def has_key_def openers_def closers_def
        py_last_def split: if_splits)

lemma handle_token_opener_empty:
  "has_key openers tok \<Longrightarrow> handle_token tok i out edits []
     = Inr (i + length tok, out @ [tok], edits, [(tok, length out, i)])"
  by (simp add: handle_token_def classify_opener_empty handle_opener_empty)

lemma handle_token_closer_match:
  "lookup matching opener = Inr tok \<Longrightarrow> handle_token tok i out edits [(opener, a, b)]
     = Inr (i + length tok, out @ [tok], edits, [])"
  by (simp add: handle_token_def classify_closer_match handle_closer_match)

lemma balanced_scan:
  assumes "balanced close_on_newline s protected i opn" and "concat out = take i s"
  shows "\<exists>i' out'. scan_loop close_on_newline s protected
            (i, out, [], case opn of None \<Rightarrow> [] | Some opener \<Rightarrow> [(opener, a, b)])
          = Inr (i', out', [], []) \<and> concat out' = s"
  using assms
proof (induction close_on_newline s protected i opn arbitrary: out a b rule: balanced.induct)
  case (1 close_on_newline s protected i opn)
  note bal = "1.prems"(1) and inv = "1.prems"(2)
  define stack :: "stack_entry list"
    where "stack = (case opn of None \<Rightarrow> [] | Some opener \<Rightarrow> [(opener, a, b)])"
  have stack_empty: "stack = [] \<longleftrightarrow> opn = None"
    by (cases opn) (simp_all add: stack_def)
  show ?case
    unfolding stack_def[symmetric]
  proof (cases "i < length s")
    case False
    with bal have "opn = None" by (subst (asm) balanced.simps) simp
    with False inv show "\<exists>i' out'. scan_loop close_on_newline s protected (i, out, [], stack)
          = Inr (i', out', [], []) \<and> concat out' = s"
      by (simp add: scan_loop_done stack_def)
  next
    case True
    show "\<exists>i' out'. scan_loop close_on_newline s protected (i, out, [], stack)
          = Inr (i', out', [], []) \<and> concat out' = s"
    proof (cases "find (\<lambda>(st, en). st \<le> i \<and> i < en) protected")
      case (Some sp)
      obtain st en where sp: "sp = (st, en)" by (cases sp) auto
      from bal True Some sp have bal': "balanced close_on_newline s protected en opn"
        by (subst (asm) balanced.simps) simp
      from Some have ip: "in_protected i protected"
        using find_span_None[of i protected] by simp
      from ip obtain st' en' where
        f: "find (\<lambda>(st, en). st \<le> i \<and> i < en) protected = Some (st', en')" and lt: "i < en'"
        and step: "scan_step close_on_newline s protected (i, out, [], stack)
                   = Inr (en', out @ [slice s i en'], [], stack)"
        by (rule scan_step_protected)
      from f Some sp have e: "en' = en" by simp
      from inv lt have inv': "concat (out @ [slice s i en]) = take en s"
        by (simp add: take_slice e)
      from "1.IH"(6)[OF True Some sp[symmetric] bal' inv', of a b]
      show ?thesis
        unfolding scan_loop_step[OF True step] e by (simp add: stack_def)
    next
      case None
      then have np: "\<not> in_protected i protected" by (simp add: find_span_None)
      from bal True None have nl: "\<not> (s ! i = LF \<and> close_on_newline \<and> opn \<noteq> None)"
        by (subst (asm) balanced.simps) (auto split: if_splits)
      then have nl': "\<not> (s ! i = LF \<and> close_on_newline \<and> stack \<noteq> [])"
        by (simp add: stack_empty)
      show ?thesis
      proof (cases "find (\<lambda>t. startswith_at s t i) tokens")
        case tn: None
        from bal True None nl tn have bal': "balanced close_on_newline s protected (Suc i) opn"
          by (subst (asm) balanced.simps) auto
        from scan_step_plain[OF True np nl' tn]
        have step: "scan_step close_on_newline s protected (i, out, [], stack)
                    = Inr (Suc i, out @ [[s ! i]], [], stack)" by simp
        from inv True have inv': "concat (out @ [[s ! i]]) = take (Suc i) s"
          by (simp add: take_char)
        from "1.IH"(1)[OF True None nl tn bal' inv', of a b]
        show ?thesis
          unfolding scan_loop_step[OF True step] by (simp add: stack_def)
      next
        case (Some tok)
        from find_Some_set[OF Some] have sw: "startswith_at s tok i" by simp
        from inv sw have inv': "concat (out @ [tok]) = take (i + length tok) s"
          by (simp add: take_token)
        show ?thesis
        proof (cases "count_trailing_backslashes (slice s 0 i) mod 2 = 1")
          case odd: True
          from bal True None nl Some odd
          have bal': "balanced close_on_newline s protected (i + length tok) opn"
            by (subst (asm) balanced.simps) auto
          note step = scan_step_escaped[OF True np Some odd, of close_on_newline out "[]" stack]
          from "1.IH"(2)[OF True None nl Some odd bal' inv', of a b]
          show ?thesis
            unfolding scan_loop_step[OF True step] by (simp add: stack_def)
        next
          case ev: False
          show ?thesis
          proof (cases "tok = ''$'' \<and> opn = None \<and> looks_like_currency s i = Inr True")
            case cur: True
            from bal True None nl Some ev cur
            have bal': "balanced close_on_newline s protected (Suc i) opn"
              by (subst (asm) balanced.simps) auto
            from cur Some have f: "find (\<lambda>t. startswith_at s t i) tokens = Some ''$''"
              and se: "stack = []" and c: "looks_like_currency s i = Inr True"
              by (simp_all add: stack_empty)
            from scan_step_currency[OF True np f ev se c]
            have step: "scan_step close_on_newline s protected (i, out, [], stack)
                        = Inr (Suc i, out @ [''$''], [], stack)" by simp
            from inv' cur have inv'': "concat (out @ [''$'']) = take (Suc i) s" by simp
            from "1.IH"(3)[OF True None nl Some ev cur bal' inv'', of a b]
            show ?thesis
              unfolding scan_loop_step[OF True step] by (simp add: stack_def)
          next
            case ncur: False
            then have ncur': "\<not> (tok = ''$'' \<and> stack = [] \<and> looks_like_currency s i = Inr True)"
              by (simp add: stack_empty)
            note tokstep = scan_step_token[OF True np Some ev ncur', of close_on_newline out "[]"]
            show ?thesis
            proof (cases opn)
              case on: None
              from bal True \<open>find (\<lambda>(st, en). st \<le> i \<and> i < en) protected = None\<close> nl Some ev ncur on
              have hk: "has_key openers tok"
                and bal': "balanced close_on_newline s protected (i + length tok) (Some tok)"
                by (subst (asm) balanced.simps, auto)+
              from on have se: "stack = []" by (simp add: stack_def)
              from tokstep have step: "scan_step close_on_newline s protected (i, out, [], stack)
                  = Inr (i + length tok, out @ [tok], [], [(tok, length out, i)])"
                unfolding se handle_token_opener_empty[OF hk] .
              from "1.IH"(4)[OF True \<open>find (\<lambda>(st, en). st \<le> i \<and> i < en) protected = None\<close>
                  nl Some ev ncur on bal' inv', of "length out" i]
              show ?thesis
                unfolding scan_loop_step[OF True step] by simp
            next
              case os: (Some opener)
              from bal True \<open>find (\<lambda>(st, en). st \<le> i \<and> i < en) protected = None\<close> nl Some ev ncur os
              have lk: "lookup matching opener = Inr tok"
                and bal': "balanced close_on_newline s protected (i + length tok) None"
                by (subst (asm) balanced.simps, auto)+
              from os have se: "stack = [(opener, a, b)]" by (simp add: stack_def)
              from tokstep have step: "scan_step close_on_newline s protected (i, out, [], stack)
                  = Inr (i + length tok, out @ [tok], [], [])"
                unfolding se handle_token_closer_match[OF lk] .
              from "1.IH"(5)[OF True \<open>find (\<lambda>(st, en). st \<le> i \<and> i < en) protected = None\<close>
                  nl Some ev ncur os bal' inv', of a b]
              show ?thesis
                unfolding scan_loop_step[OF True step] by simp
            qed
          qed
        qed
      qed
    qed
  qed
qed

lemma balanced_scan_and_fix:
  assumes "balanced close_on_newline s protected 0 None"
  shows "scan_and_fix close_on_newline s protected = Inr (s, [])"
proof -
  from balanced_scan[OF assms, of "[]"] obtain i' out' where
    "scan_loop close_on_newline s protected (0, [], [], []) = Inr (i', out', [], [])"
    and "concat out' = s" by auto
  then show ?thesis
    by (simp add: scan_and_fix_def Let_def close_document_Nil)
qed

lemma align_sub_free: "align_free s \<Longrightarrow> align_sub s i = drop i s"
proof (induction s i rule: align_sub.induct)
  case (1 s i)
  show ?case
  proof (cases "i < length s")
    case False
    then show ?thesis by (subst align_sub.simps) simp
  next
    case True
    with "1.prems" have n: "align_match s i = None"
      by (simp add: align_free_def list_all_iff)
    from "1.IH"(1)[OF True n "1.prems"] True n show ?thesis
      by (subst align_sub.simps) (simp add: Cons_nth_drop_Suc)
  qed
qed

text \<open>
  Claim C2, as amended (text with balanced delimiters comes back unchanged, with no
  edit). When the delimiters of a text are balanced in the sense of \<open>balanced\<close>, on its
  own protected spans, \<open>LaTeXFixer.fix\<close> returns the text with no edit; when the text
  moreover holds no align-family environment, so does \<open>fix_latex_delimiters\<close>.
\<close>

theorem balanced_text_unchanged:
  "(protected_spans text = Inr spans \<and> balanced close_on_newline text spans 0 None
      \<longrightarrow> LaTeXFixer_fix close_on_newline text = Inr (text, []))
   \<and> (protected_spans text = Inr spans \<and> balanced close_on_newline text spans 0 None
        \<and> align_free text
      \<longrightarrow> fix_latex_delimiters text close_on_newline = Inr (text, []))"
proof (intro conjI impI)
  assume "protected_spans text = Inr spans \<and> balanced close_on_newline text spans 0 None"
  then show "LaTeXFixer_fix close_on_newline text = Inr (text, [])"
    by (simp add: LaTeXFixer_fix_def balanced_scan_and_fix)
next
  assume "protected_spans text = Inr spans \<and> balanced close_on_newline text spans 0 None
        \<and> align_free text"
  then show "fix_latex_delimiters text close_on_newline = Inr (text, [])"
    by (simp add: fix_latex_delimiters_def LaTeXFixer_fix_def balanced_scan_and_fix
          fix_align_environments_def align_sub_free)
qed

text \<open>The theorem on \<open>This is $x+1$ inline math.\<close>, which has no protected span.\<close>

theorem balanced_text_unchanged_witness:
  "(protected_spans ''This is $x+1$ inline math.'' = Inr []
    \<and> balanced True ''This is $x+1$ inline math.'' [] 0 None
    \<and> align_free ''This is $x+1$ inline math.'')
   \<and> LaTeXFixer_fix True ''This is $x+1$ inline math.'' = Inr (''This is $x+1$ inline math.'', [])
   \<and> fix_latex_delimiters ''This is $x+1$ inline math.'' True
       = Inr (''This is $x+1$ inline math.'', [])"
proof -
  have h: "protected_spans ''This is $x+1$ inline math.'' = Inr []
    \<and> balanced True ''This is $x+1$ inline math.'' [] 0 None
    \<and> align_free ''This is $x+1$ inline math.''"
    by code_simp
  from balanced_text_unchanged[of "''This is $x+1$ inline math.''" "[]" True] h
  show ?thesis by blast
qed

text \<open>
  Claim C2 as stated fails twice. A text made of an align environment holds no delimiter
  token at all, and the align pass rewrites it. A display formula written over three lines
  is balanced (the scan without \<open>close_on_newline\<close> leaves it alone), and with the default
  \<open>close_on_newline\<close> it is closed at the first newline and its own closer deleted.
\<close>

theorem balanced_text_unchanged_counterexample:
  "tokens_protected (BSL # ''begin{align}x'' @ BSL # ''end{align}'') []
   \<and> fix_latex_delimiters (BSL # ''begin{align}x'' @ BSL # ''end{align}'') True
       = Inr (''$$'' @ [LF] @ BSL # ''begin{aligned}'' @ [LF] @ ''x'' @ [LF] @ BSL # ''end{aligned}''
              @ [LF] @ ''$$'', [])
   \<and> balanced False ([BSL, CHR ''['', LF] @ ''x'' @ [LF, BSL, CHR '']'']) [] 0 None
   \<and> fix_latex_delimiters ([BSL, CHR ''['', LF] @ ''x'' @ [LF, BSL, CHR '']'']) True
       = Inr ([BSL, CHR ''['', BSL, CHR '']'', LF] @ ''x'' @ [LF],
              [Edit Insert 2 [] [BSL, CHR '']'']
                 (''Inserted missing closer '' @ [BSL, CHR '']''] @ '' for '' @ [BSL, CHR ''['']
                  @ '' at end of line''),
               Edit Delete 5 [BSL, CHR '']''] [] (''Stray closer '' @ [BSL, CHR '']''] @ '' removed'')])"
  by code_simp

subsection \<open>Protected spans\<close>







lemma covered_snoc: "covered ms x \<Longrightarrow> covered (ms @ [m]) x"
  by (auto simp: covered_def)









end
